theory Spec2Isabelle
  imports Main "HOL-Library.Word"
begin

unbundle bit_operations_syntax

text \<open>
  A shallow embedding of the framing and decode core of CommWatch: the CRC primitives, the
  EFuse, COBS and SLIP codecs, the receive listener and \<open>write\<close> of the CAN adapter, and the
  CRC and sample frame of the UART burst simulator. Each source function is a HOL function
  of the same name; loops are folds or recursive functions, thrown errors and \<open>null\<close> results
  are values. The definitions come first, the properties after them.
\<close>

section \<open>Numbers and bytes\<close>

text \<open>
  A \<open>Uint8Array\<close> is a list of bytes. The bitwise operators of the source work on
  32-bit two's complement integers: every operand is first reduced to an \<open>int32\<close> and every
  result is one, so a register that is only ever touched by such operators is kept as a
  32-bit word; \<open>sint\<close> reads the number the program sees.
\<close>

type_synonym byte = "8 word"
type_synonym int32 = "32 word"

section \<open>CRC primitives (packages/proto-core/src/utils/crc.ts)\<close>

text \<open>One round of the static initialiser's inner loop:
  \<^verbatim>\<open>crc = (crc & 0x8000) ? ((crc << 1) ^ 0x1021) : (crc << 1)\<close>.\<close>

definition table_round :: "int32 \<Rightarrow> int32" where
  "table_round crc =
     (if crc AND 0x8000 \<noteq> 0 then push_bit 1 crc XOR 0x1021 else push_bit 1 crc)"

text \<open>The entry stored at index \<open>i\<close>: \<open>crc = i << 8\<close>, eight rounds, then
  \<open>crc & 0xFFFF\<close> written into the \<open>Uint16Array\<close>.\<close>

definition table_entry :: "nat \<Rightarrow> 16 word" where
  "table_entry i = ucast (((table_round ^^ 8) (push_bit 8 (of_nat i))) AND 0xFFFF)"

definition CRC16_CCITT_FALSE_TABLE :: "16 word list" where
  "CRC16_CCITT_FALSE_TABLE = map table_entry [0..<256]"

text \<open>The body of the loop of \<open>crc16CcittFalse\<close>:
  \<^verbatim>\<open>index = ((crc >> 8) ^ byte) & 0xFF; crc = ((crc << 8) ^ TABLE[index]) & 0xFFFF\<close>.
  The index is masked to eight bits, so the table read is always in range.\<close>

definition crc16_update :: "byte \<Rightarrow> int32 \<Rightarrow> int32" where
  "crc16_update b crc =
     (let index = (signed_drop_bit 8 crc XOR ucast b) AND 0xFF
      in (push_bit 8 crc XOR ucast (CRC16_CCITT_FALSE_TABLE ! unat index)) AND 0xFFFF)"

definition crc16CcittFalse :: "byte list \<Rightarrow> int" where
  "crc16CcittFalse data = sint (fold crc16_update data 0xFFFF)"

text \<open>\<open>crc32\<close>: \<^verbatim>\<open>crc ^= byte\<close>, then eight times
  \<^verbatim>\<open>crc = (crc >>> 1) ^ (0xEDB88320 & -(crc & 1))\<close>; the result is
  \<^verbatim>\<open>(crc ^ 0xFFFFFFFF) >>> 0\<close>, an unsigned 32-bit number.\<close>

definition crc32_round :: "int32 \<Rightarrow> int32" where
  "crc32_round crc = drop_bit 1 crc XOR (0xEDB88320 AND - (crc AND 1))"

definition crc32_update :: "byte \<Rightarrow> int32 \<Rightarrow> int32" where
  "crc32_update b crc = (crc32_round ^^ 8) (crc XOR ucast b)"

definition crc32 :: "byte list \<Rightarrow> int" where
  "crc32 data = uint (fold crc32_update data 0xFFFFFFFF XOR 0xFFFFFFFF)"

section \<open>The burst simulator's CRC (packages/transports-uart/src/uart-simulator.ts)\<close>

text \<open>The inner loop of \<open>calculateCrc16\<close>:
  \<^verbatim>\<open>if (crc & 0x8000) { crc = (crc << 1) ^ 0x1021 } else { crc = crc << 1 }\<close>.
  The register is not masked inside the loop; the only mask is at the return.\<close>

definition calculateCrc16_round :: "int32 \<Rightarrow> int32" where
  "calculateCrc16_round crc =
     (if crc AND 0x8000 \<noteq> 0 then push_bit 1 crc XOR 0x1021 else push_bit 1 crc)"

definition calculateCrc16_update :: "byte \<Rightarrow> int32 \<Rightarrow> int32" where
  "calculateCrc16_update b crc = (calculateCrc16_round ^^ 8) (crc XOR push_bit 8 (ucast b))"

definition calculateCrc16 :: "byte list \<Rightarrow> int" where
  "calculateCrc16 data = sint (fold calculateCrc16_update data 0xFFFF AND 0xFFFF)"

section \<open>Protocol types (packages/proto-core/src/types/protocol.ts)\<close>

datatype field_type =
  T_uint8 | T_uint16 | T_uint32 | T_int8 | T_int16 | T_int32 | T_float | T_string | T_bytes

text \<open>The constant \<^verbatim>\<open>3.3 / 4095.0\<close> of the ADC sub-decoder is a double; it is kept as a
  name, not as a number.\<close>

datatype double_const = Volts_per_count

text \<open>
  The values a field carries (\<open>value: unknown\<close> in the source). \<open>Fixed3_volts r\<close> stands for
  the string \<^verbatim>\<open>((r / 4095.0) * 3.3).toFixed(3)\<close>: the double arithmetic and its decimal
  rendering are not computed here, the reading \<open>r\<close> that determines the string is recorded.
\<close>

datatype js_value =
  Number int | Bytes "byte list" | Boolean bool | Str string | Fixed3_volts int

record FrameField =
  name :: string
  fvalue :: js_value
  ftype :: field_type
  raw_bytes :: "byte list"
  offset :: nat
  scaling :: "double_const option"
  funit :: "string option"

datatype checksum_type = Crc16_ccitt_false | Crc32 | Checksum8 | Custom

record ChecksumInfo =
  ctype :: checksum_type
  expected :: int
  calculated :: int
  valid :: bool

datatype severity = Sev_warning | Sev_error

record FrameError =
  error_code :: string
  message :: string
  severity :: severity

record DecodedFrame =
  protocol :: string
  frame_fields :: "FrameField list"
  checksum :: "ChecksumInfo option"
  metadata :: "(string \<times> js_value) list"

section \<open>Typed arrays and template strings\<close>

text \<open>\<open>a.slice(from, to)\<close> for \<open>0 \<le> from\<close>, \<open>0 \<le> to\<close>: both ends are clipped to the
  length, and an empty array results when \<open>to \<le> from\<close>.\<close>

definition slice :: "'a list \<Rightarrow> nat \<Rightarrow> nat \<Rightarrow> 'a list" where
  "slice xs from to = take (to - from) (drop from xs)"

text \<open>\<open>target.set(source, offset)\<close> on a typed array: a \<open>RangeError\<close> when the source does
  not fit, otherwise the bytes are copied in place.\<close>

datatype encode_error = Missing_required_fields | RangeError | Cast_outside_model

definition set_bytes :: "byte list \<Rightarrow> byte list \<Rightarrow> nat \<Rightarrow> encode_error + byte list" where
  "set_bytes target source off =
     (if off + length source \<le> length target
      then Inr (take off target @ source @ drop (off + length source) target)
      else Inl RangeError)"

text \<open>\<open>(hi << 8) | lo\<close> on two bytes read from a \<open>Uint8Array\<close>.\<close>

definition be16 :: "byte \<Rightarrow> byte \<Rightarrow> int32" where
  "be16 hi lo = push_bit 8 (ucast hi) OR ucast lo"

text \<open>\<open>(b0 << 24) | (b1 << 16) | (b2 << 8) | b3\<close>: an \<open>int32\<close>, negative when the top bit
  of \<open>b0\<close> is set.\<close>

definition be32 :: "byte \<Rightarrow> byte \<Rightarrow> byte \<Rightarrow> byte \<Rightarrow> int32" where
  "be32 b0 b1 b2 b3 =
     push_bit 24 (ucast b0) OR push_bit 16 (ucast b1) OR push_bit 8 (ucast b2) OR ucast b3"

text \<open>\<open>n.toString(radix)\<close> and \<^verbatim>\<open>${n}\<close> for a non-negative integer \<open>n\<close>: lower-case
  digits, no padding.\<close>

definition digit_char :: "nat \<Rightarrow> char" where
  "digit_char d = ''0123456789abcdef'' ! d"

function to_radix :: "nat \<Rightarrow> nat \<Rightarrow> string" where
  "to_radix b n =
     (if b < 2 \<or> n < b then [digit_char n]
      else to_radix b (n div b) @ [digit_char (n mod b)])"
  by pat_completeness auto
termination
  by (relation "measure snd") auto

definition to_decimal :: "nat \<Rightarrow> string" where
  "to_decimal n = to_radix 10 n"

definition to_hex :: "nat \<Rightarrow> string" where
  "to_hex n = to_radix 16 n"

section \<open>EFuse codec (packages/decoders/src/efuse-decoder.ts)\<close>

abbreviation START_MARKER :: byte where "START_MARKER \<equiv> 0xAA"
abbreviation END_MARKER :: byte where "END_MARKER \<equiv> 0xBB"
abbreviation MIN_FRAME_LENGTH :: nat where "MIN_FRAME_LENGTH \<equiv> 7"

definition decodeAdcPayload :: "byte list \<Rightarrow> FrameField list" where
  "decodeAdcPayload payload =
     (if length payload < 2 then []
      else
        let rawValue = sint (be16 (payload ! 0) (payload ! 1))
        in [\<lparr>name = ''adc_raw'', fvalue = Number rawValue, ftype = T_uint16,
              raw_bytes = slice payload 0 2, offset = 0, scaling = None, funit = None\<rparr>,
            \<lparr>name = ''voltage'', fvalue = Fixed3_volts rawValue, ftype = T_float,
              raw_bytes = slice payload 0 2, offset = 0, scaling = Some Volts_per_count,
              funit = Some ''V''\<rparr>])"

definition decodeStatusPayload :: "byte list \<Rightarrow> FrameField list" where
  "decodeStatusPayload payload =
     (if length payload < 1 then []
      else
        let status = payload ! 0
        in [\<lparr>name = ''status'', fvalue = Number (uint status), ftype = T_uint8,
              raw_bytes = slice payload 0 1, offset = 0, scaling = None, funit = None\<rparr>,
            \<lparr>name = ''ready'', fvalue = Boolean (status AND 0x01 \<noteq> 0), ftype = T_uint8,
              raw_bytes = slice payload 0 1, offset = 0, scaling = None, funit = None\<rparr>,
            \<lparr>name = ''error'', fvalue = Boolean (status AND 0x02 \<noteq> 0), ftype = T_uint8,
              raw_bytes = slice payload 0 1, offset = 0, scaling = None, funit = None\<rparr>])"

definition decodeConfigPayload :: "byte list \<Rightarrow> FrameField list" where
  "decodeConfigPayload payload =
     (if length payload < 4 then []
      else
        [\<lparr>name = ''config_value'',
          fvalue = Number (sint (be32 (payload ! 0) (payload ! 1) (payload ! 2) (payload ! 3))),
          ftype = T_uint32, raw_bytes = slice payload 0 4, offset = 0, scaling = None,
          funit = None\<rparr>])"

definition decodePayload :: "int \<Rightarrow> byte list \<Rightarrow> FrameField list option" where
  "decodePayload type payload =
     (if type = 0x01 then Some (decodeAdcPayload payload)
      else if type = 0x02 then Some (decodeStatusPayload payload)
      else if type = 0x03 then Some (decodeConfigPayload payload)
      else None)"

text \<open>
  \<open>decode\<close>. Every index read below is inside the array: the first three come after the
  check \<open>raw.length \<ge> 7\<close>, the two CRC bytes after \<open>raw.length = 7 + payloadLength\<close>.
  \<open>payloadLength\<close> is built from two bytes, so it is between 0 and 65535 and is used as
  a length.
\<close>

definition EFuseDecoder_decode :: "byte list \<Rightarrow> DecodedFrame option" where
  "EFuseDecoder_decode raw =
     (if length raw < MIN_FRAME_LENGTH then None
      else if raw ! 0 \<noteq> START_MARKER \<or> raw ! (length raw - 1) \<noteq> END_MARKER then None
      else
        let type = uint (raw ! 1);
            payloadLength = unat (be16 (raw ! 2) (raw ! 3));
            expectedLength = 1 + 1 + 2 + payloadLength + 2 + 1
        in
          if length raw \<noteq> expectedLength then None
          else
            let payloadStart = 4;
                payloadEnd = payloadStart + payloadLength;
                payload = slice raw payloadStart payloadEnd;
                crcExpected = sint (be16 (raw ! payloadEnd) (raw ! (payloadEnd + 1)));
                crcData = slice raw 1 payloadEnd;
                crcCalculated = crc16CcittFalse crcData;
                crcValid = (crcExpected = crcCalculated);
                fields =
                  [\<lparr>name = ''type'', fvalue = Number type, ftype = T_uint8,
                    raw_bytes = slice raw 1 2, offset = 1, scaling = None, funit = None\<rparr>,
                   \<lparr>name = ''length'', fvalue = Number (int payloadLength), ftype = T_uint16,
                    raw_bytes = slice raw 2 4, offset = 2, scaling = None, funit = None\<rparr>,
                   \<lparr>name = ''payload'', fvalue = Bytes payload, ftype = T_bytes,
                    raw_bytes = payload, offset = 4, scaling = None, funit = None\<rparr>];
                fields =
                  (case decodePayload type payload of
                     Some decodedPayload \<Rightarrow> fields @ decodedPayload
                   | None \<Rightarrow> fields)
            in
              Some \<lparr>protocol = ''efuse'', frame_fields = fields,
                    checksum = Some \<lparr>ctype = Crc16_ccitt_false, expected = crcExpected,
                                     calculated = crcCalculated, valid = crcValid\<rparr>,
                    metadata = [(''type'', Number type),
                                (''payloadLength'', Number (int payloadLength))]\<rparr>)"

text \<open>
  \<open>encode\<close>. The two casts (\<open>as number\<close>, \<open>as Uint8Array\<close>) are unchecked in the source; the
  model covers the field lists whose \<open>type\<close> value is a number and whose \<open>payload\<close> value is
  a byte array, and answers \<open>Cast_outside_model\<close> on the others. A store into the
  \<open>Uint8Array\<close> keeps the low eight bits of the number stored.
\<close>

definition EFuseDecoder_encode :: "FrameField list \<Rightarrow> encode_error + byte list" where
  "EFuseDecoder_encode fs =
     (case (find (\<lambda>f. name f = ''type'') fs, find (\<lambda>f. name f = ''payload'') fs) of
        (Some typeField, Some payloadField) \<Rightarrow>
          (case (fvalue typeField, fvalue payloadField) of
             (Number type, Bytes payload) \<Rightarrow>
               let payloadLength = length payload;
                   frameLength = 1 + 1 + 2 + payloadLength + 2 + 1;
                   frame = replicate frameLength (0 :: byte);
                   frame = frame[0 := START_MARKER];
                   frame = frame[1 := word_of_int type];
                   frame = frame[2 := ucast (signed_drop_bit 8 (word_of_nat payloadLength :: int32) AND 0xFF)];
                   frame = frame[3 := ucast ((word_of_nat payloadLength :: int32) AND 0xFF)]
               in
                 (case set_bytes frame payload 4 of
                    Inl e \<Rightarrow> Inl e
                  | Inr frame \<Rightarrow>
                      let offset = 4 + payloadLength;
                          crcData = slice frame 1 offset;
                          crc = (word_of_int (crc16CcittFalse crcData) :: int32);
                          frame = frame[offset := ucast (signed_drop_bit 8 crc AND 0xFF)];
                          frame = frame[offset + 1 := ucast (crc AND 0xFF)];
                          frame = frame[offset + 2 := END_MARKER]
                      in Inr frame)
           | _ \<Rightarrow> Inl Cast_outside_model)
      | _ \<Rightarrow> Inl Missing_required_fields)"

definition frame_error :: "string \<Rightarrow> string \<Rightarrow> FrameError" where
  "frame_error c m = \<lparr>error_code = c, message = m, severity = Sev_error\<rparr>"

definition EFuseDecoder_validate :: "byte list \<Rightarrow> FrameError option" where
  "EFuseDecoder_validate raw =
     (if length raw < MIN_FRAME_LENGTH then
        Some (frame_error ''FRAME_TOO_SHORT''
               (''Frame too short: '' @ to_decimal (length raw) @ '' < '' @ to_decimal MIN_FRAME_LENGTH))
      else if raw ! 0 \<noteq> START_MARKER then
        Some (frame_error ''INVALID_START_MARKER''
               (''Invalid start marker: 0x'' @ to_hex (unat (raw ! 0))))
      else if raw ! (length raw - 1) \<noteq> END_MARKER then
        Some (frame_error ''INVALID_END_MARKER''
               (''Invalid end marker: 0x'' @ to_hex (unat (raw ! (length raw - 1)))))
      else
        let payloadLength = unat (be16 (raw ! 2) (raw ! 3));
            expectedLength = 1 + 1 + 2 + payloadLength + 2 + 1
        in
          if length raw \<noteq> expectedLength then
            Some (frame_error ''LENGTH_MISMATCH''
                   (''Length mismatch: expected '' @ to_decimal expectedLength @ '', got ''
                      @ to_decimal (length raw)))
          else
            let payloadEnd = 4 + payloadLength;
                crcExpected = sint (be16 (raw ! payloadEnd) (raw ! (payloadEnd + 1)));
                crcData = slice raw 1 payloadEnd;
                crcCalculated = crc16CcittFalse crcData
            in
              if crcExpected \<noteq> crcCalculated then
                Some (frame_error ''CRC_MISMATCH''
                       (''CRC mismatch: expected 0x'' @ to_hex (nat crcExpected)
                          @ '', calculated 0x'' @ to_hex (nat crcCalculated)))
              else None)"

section \<open>COBS codec (packages/decoders/src/cobs-decoder.ts)\<close>

text \<open>
  \<open>cobsEncode\<close> keeps three variables: the \<open>number[]\<close> being built, the index of the
  pending code byte and the running code. One round of its loop, for one input byte; the
  store \<open>result[codeIndex] = code\<close> always hits an existing element.
\<close>

definition cobsEncode_step :: "byte \<Rightarrow> nat list \<times> nat \<times> nat \<Rightarrow> nat list \<times> nat \<times> nat" where
  "cobsEncode_step byte s =
     (case s of (result, codeIndex, code) \<Rightarrow>
        if byte = 0 then
          let result = result[codeIndex := code];
              codeIndex = length result;
              result = result @ [0]
          in (result, codeIndex, 1)
        else
          let result = result @ [unat byte];
              code = code + 1
          in
            if code = 0xFF then
              let result = result[codeIndex := code];
                  codeIndex = length result;
                  result = result @ [0]
              in (result, codeIndex, 1)
            else (result, codeIndex, code))"

text \<open>The final \<open>new Uint8Array(result)\<close> turns every number into a byte.\<close>

definition cobsEncode :: "byte list \<Rightarrow> byte list" where
  "cobsEncode data =
     (case fold cobsEncode_step data ([0], 0, 1) of
        (result, codeIndex, code) \<Rightarrow> map word_of_nat (result[codeIndex := code]))"

text \<open>
  \<open>cobsDecode\<close> walks the input with an index \<open>i\<close>; the model recurses on the bytes from
  \<open>i\<close> on, so \<open>i < data.length\<close> reads "the rest is not empty". The inner loop copies
  \<open>code - 1\<close> bytes, or fewer when the input ends.
\<close>

fun cobsDecode_loop :: "byte list \<Rightarrow> byte list \<Rightarrow> byte list option" where
  "cobsDecode_loop [] result = Some result"
| "cobsDecode_loop (code # rest) result =
     (if code = 0 then None
      else
        cobsDecode_loop (drop (unat code - 1) rest)
          (if code < 0xFF \<and> drop (unat code - 1) rest \<noteq> []
           then result @ take (unat code - 1) rest @ [0]
           else result @ take (unat code - 1) rest))"

definition cobsDecode :: "byte list \<Rightarrow> byte list option" where
  "cobsDecode data = cobsDecode_loop data []"

section \<open>SLIP codec (packages/decoders/src/slip-decoder.ts)\<close>

abbreviation SLIP_END :: byte where "SLIP_END \<equiv> 0xC0"
abbreviation SLIP_ESC :: byte where "SLIP_ESC \<equiv> 0xDB"
abbreviation SLIP_ESC_END :: byte where "SLIP_ESC_END \<equiv> 0xDC"
abbreviation SLIP_ESC_ESC :: byte where "SLIP_ESC_ESC \<equiv> 0xDD"

definition slipEncode_step :: "byte \<Rightarrow> byte list \<Rightarrow> byte list" where
  "slipEncode_step byte result =
     (if byte = SLIP_END then result @ [SLIP_ESC, SLIP_ESC_END]
      else if byte = SLIP_ESC then result @ [SLIP_ESC, SLIP_ESC_ESC]
      else result @ [byte])"

definition slipEncode :: "byte list \<Rightarrow> byte list" where
  "slipEncode data = fold slipEncode_step data [] @ [SLIP_END]"

text \<open>The loop of \<open>slipDecode\<close>: \<open>break\<close> at \<open>END\<close> returns what was collected, an invalid
  escape returns \<open>null\<close>, and the end of the input returns what was collected.\<close>

fun slipDecode_loop :: "byte list \<Rightarrow> byte list \<Rightarrow> bool \<Rightarrow> byte list option" where
  "slipDecode_loop [] result escaped = Some result"
| "slipDecode_loop (byte # rest) result escaped =
     (if byte = SLIP_END then Some result
      else if escaped then
        (if byte = SLIP_ESC_END then slipDecode_loop rest (result @ [SLIP_END]) False
         else if byte = SLIP_ESC_ESC then slipDecode_loop rest (result @ [SLIP_ESC]) False
         else None)
      else if byte = SLIP_ESC then slipDecode_loop rest result True
      else slipDecode_loop rest (result @ [byte]) escaped)"

definition slipDecode :: "byte list \<Rightarrow> byte list option" where
  "slipDecode data = slipDecode_loop data [] False"

section \<open>CAN adapter (packages/transports-can/src/can-adapter.ts)\<close>

text \<open>A number used as an operand of a bitwise operator is first reduced to an \<open>int32\<close>.\<close>

definition ToInt32 :: "int \<Rightarrow> int32" where
  "ToInt32 n = word_of_int n"

record CANMessage =
  can_id :: int
  ext :: bool
  rtr :: bool
  can_data :: "byte list"

record CanFilter =
  filter_id :: int
  filter_mask :: int
  extended :: "bool option"

record AdapterStats =
  bytesRx :: nat
  bytesTx :: nat
  messagesRx :: nat
  messagesTx :: nat
  errors :: nat
  uptime :: nat

record TransportSpecific =
  canId :: int
  canExt :: bool
  canRtr :: bool
  canDlc :: nat

datatype direction = Rx | Tx

record RxMeta =
  timestamp :: nat
  direction :: direction
  meta_length :: nat
  transportSpecific :: "TransportSpecific option"

text \<open>The part of a \<open>CANHandle\<close> that the listener and \<open>write\<close> read and change.\<close>

record CANHandle =
  stats :: AdapterStats
  filters :: "CanFilter list"

text \<open>The callback given to \<open>filters.some\<close>.\<close>

definition filter_matches :: "CANMessage \<Rightarrow> CanFilter \<Rightarrow> bool" where
  "filter_matches msg f =
     (let idMatch = (sint (ToInt32 (can_id msg) AND ToInt32 (filter_mask f))
                       = sint (ToInt32 (filter_id f) AND ToInt32 (filter_mask f)));
          extMatch = (extended f = None \<or> extended f = Some (ext msg))
      in idMatch \<and> extMatch)"

text \<open>The normalised frame \<open>[ID(4)] [DLC(1)] [DATA]\<close> built by the listener.\<close>

definition rx_frame :: "CANMessage \<Rightarrow> encode_error + byte list" where
  "rx_frame msg =
     (let frame = replicate (5 + length (can_data msg)) (0 :: byte);
          frame = frame[0 := ucast (signed_drop_bit 24 (ToInt32 (can_id msg)) AND 0xFF)];
          frame = frame[1 := ucast (signed_drop_bit 16 (ToInt32 (can_id msg)) AND 0xFF)];
          frame = frame[2 := ucast (signed_drop_bit 8 (ToInt32 (can_id msg)) AND 0xFF)];
          frame = frame[3 := ucast (ToInt32 (can_id msg) AND 0xFF)];
          frame = frame[4 := word_of_nat (length (can_data msg))]
      in set_bytes frame (can_data msg) 5)"

text \<open>
  The \<open>onMessage\<close> listener, given the clock reading: the new handle and what is handed to
  every read callback, \<open>None\<close> when the listener returns before reaching them. The frame
  is allocated with room for the data, so the copy into it always fits.
\<close>

definition onMessage :: "CANHandle \<Rightarrow> nat \<Rightarrow> CANMessage \<Rightarrow> CANHandle \<times> (byte list \<times> RxMeta) option" where
  "onMessage h now msg =
     (if length (filters h) > 0 \<and> \<not> list_ex (filter_matches msg) (filters h) then (h, None)
      else
        case rx_frame msg of
          Inl e \<Rightarrow> (h, None)
        | Inr frame \<Rightarrow>
            let st = (stats h)\<lparr>bytesRx := bytesRx (stats h) + length frame,
                                messagesRx := messagesRx (stats h) + 1\<rparr>;
                meta = \<lparr>timestamp = now, direction = Rx, meta_length = length frame,
                         transportSpecific =
                           Some \<lparr>canId = can_id msg, canExt = ext msg, canRtr = rtr msg,
                                  canDlc = length (can_data msg)\<rparr>\<rparr>
            in (h\<lparr>stats := st\<rparr>, Some (frame, meta)))"

text \<open>The message \<open>write\<close> builds from a frame of at least five bytes.\<close>

definition write_msg :: "byte list \<Rightarrow> CANMessage" where
  "write_msg frame =
     (let id = sint (be32 (frame ! 0) (frame ! 1) (frame ! 2) (frame ! 3));
          dlc = unat (frame ! 4);
          data = slice frame 5 (5 + dlc)
      in \<lparr>can_id = id, ext = (id > 0x7FF), rtr = False, can_data = data\<rparr>)"

text \<open>
  \<open>write\<close>. The channel is outside the repository: \<open>send msg\<close> is \<open>None\<close> when
  \<open>channel.send\<close> returns and \<open>Some e\<close> when it throws \<open>e\<close>. The result is the new handle and
  either the message of the error thrown or nothing.
\<close>

definition CANHandle_write :: "(CANMessage \<Rightarrow> string option) \<Rightarrow> CANHandle \<Rightarrow> byte list \<Rightarrow> CANHandle \<times> (string + unit)" where
  "CANHandle_write send h frame =
     (if length frame < 5 then (h, Inl ''Invalid CAN frame: too short'')
      else
        case send (write_msg frame) of
          None \<Rightarrow>
            (h\<lparr>stats := (stats h)\<lparr>bytesTx := bytesTx (stats h) + length frame,
                                    messagesTx := messagesTx (stats h) + 1\<rparr>\<rparr>, Inr ())
        | Some e \<Rightarrow>
            (h\<lparr>stats := (stats h)\<lparr>errors := errors (stats h) + 1\<rparr>\<rparr>, Inl e))"

section \<open>The burst simulator's sample frame\<close>

text \<open>
  \<open>generateSampleFrame\<close> computes \<open>adcValue\<close> with \<open>Math.sin\<close> and \<open>Math.floor\<close>; the model
  takes that integer as its argument and builds the frame from it as the source does.
\<close>

definition generateSampleFrame :: "int \<Rightarrow> byte list" where
  "generateSampleFrame adcValue =
     (let payload = [ucast (signed_drop_bit 8 (ToInt32 adcValue) AND 0xFF),
                     ucast (ToInt32 adcValue AND 0xFF)] :: byte list;
          type = 0x01 :: byte;
          len = 2 :: byte;
          crcData = [type, 0x00, len] @ payload;
          crc = (word_of_int (calculateCrc16 crcData) :: int32)
      in [0xAA, type, 0x00, len] @ payload
           @ [ucast (signed_drop_bit 8 crc AND 0xFF), ucast (crc AND 0xFF), 0xBB])"

section \<open>Observers and test inputs\<close>

text \<open>The value of the first field with a given name, as \<open>fields.find(f => f.name === n)\<close>
  finds it.\<close>

definition field_value :: "string \<Rightarrow> FrameField list \<Rightarrow> js_value option" where
  "field_value n fs = map_option fvalue (find (\<lambda>f. name f = n) fs)"


text \<open>The bytes of an ASCII string.\<close>

definition ascii_bytes :: "string \<Rightarrow> byte list" where
  "ascii_bytes str = map (\<lambda>c. word_of_nat (of_char c)) str"

text \<open>A handle opened without \<open>canFilters\<close> (\<open>this.filters = options.canFilters || []\<close>),
  with its counters at their initial values, and a channel whose \<open>send\<close> never throws.\<close>

definition idle_handle :: CANHandle where
  "idle_handle =
     \<lparr>stats = \<lparr>bytesRx = 0, bytesTx = 0, messagesRx = 0, messagesTx = 0, errors = 0,
                uptime = 0\<rparr>,
      filters = []\<rparr>"

definition accepting_channel :: "CANMessage \<Rightarrow> string option" where
  "accepting_channel msg = None"

section \<open>The COBS encoding, block by block\<close>

text \<open>
  What \<open>cobsEncode\<close> produces, written as a recursion on the input: \<open>cur\<close> holds the
  non-zero bytes of the block being filled. A zero closes the block with its code, the
  254th byte closes it with code 0xFF, and the end of the input closes the last block.
  \<open>cobsEncode\<close> is proved equal to it below; it is not used to define the codec.
\<close>

fun cobs_blocks :: "byte list \<Rightarrow> byte list \<Rightarrow> byte list" where
  "cobs_blocks cur [] = word_of_nat (length cur + 1) # cur"
| "cobs_blocks cur (x # xs) =
     (if x = 0 then word_of_nat (length cur + 1) # cur @ cobs_blocks [] xs
      else if length cur + 2 = 0xFF then 0xFF # cur @ [x] @ cobs_blocks [] xs
      else cobs_blocks (cur @ [x]) xs)"

section \<open>Properties of the CRC primitives\<close>

lemma funpow8: "(f ^^ 8) x = f (f (f (f (f (f (f (f x)))))))"
  by (simp add: eval_nat_numeral)

lemma table_nth: "i < 256 \<Longrightarrow> CRC16_CCITT_FALSE_TABLE ! i = table_entry i"
  by (simp add: CRC16_CCITT_FALSE_TABLE_def)

lemma test_bit15: "(x AND 0x8000 \<noteq> 0) = bit (x::int32) 15"
proof -
  have "(0x8000 :: int32) = push_bit 15 1" by simp
  then show ?thesis by (metis bit_iff_and_push_bit_not_eq_0)
qed

lemma table_round_alt: "table_round x = push_bit 1 x XOR (if bit x 15 then 0x1021 else 0)"
  by (simp add: table_round_def test_bit15)

lemma table_round_xor: "table_round (x XOR y) = table_round x XOR table_round y"
  by (simp add: table_round_alt bit_xor_iff push_bit_xor ac_simps)

lemma take_bit_push_bit_low:
  "take_bit m (push_bit n (take_bit m x)) = take_bit m (push_bit n (x::int32))"
  by (rule bit_eqI) (auto simp: bit_simps)

lemma table_round_low: "take_bit 16 (table_round (take_bit 16 x)) = take_bit 16 (table_round x)"
  using take_bit_push_bit_low[of 16 1 x]
  by (simp add: table_round_alt bit_take_bit_iff take_bit_xor)

lemma table_round8_xor:
  "(table_round ^^ n) (x XOR y) = (table_round ^^ n) x XOR (table_round ^^ n) y"
  by (induction n) (simp_all add: table_round_xor)

lemma table_round8_low:
  "take_bit 16 ((table_round ^^ n) (take_bit 16 x)) = take_bit 16 ((table_round ^^ n) x)"
proof (induction n)
  case 0 show ?case by simp
next
  case (Suc n)
  have "take_bit 16 ((table_round ^^ Suc n) (take_bit 16 x))
      = take_bit 16 (table_round (take_bit 16 ((table_round ^^ n) (take_bit 16 x))))"
    by (simp add: table_round_low)
  also have "\<dots> = take_bit 16 (table_round (take_bit 16 ((table_round ^^ n) x)))"
    by (simp only: Suc.IH)
  also have "\<dots> = take_bit 16 ((table_round ^^ Suc n) x)"
    by (simp add: table_round_low)
  finally show ?case .
qed

lemma table_round_small:
  assumes "k < 8"
  shows "table_round (push_bit k (take_bit 8 x)) = push_bit (Suc k) (take_bit 8 x)"
proof -
  have "\<not> bit (push_bit k (take_bit 8 x)) 15"
    using assms by (auto simp: bit_simps)
  then show ?thesis by (simp add: table_round_alt)
qed

lemma table_round_pow_small:
  "n \<le> 8 \<Longrightarrow> (table_round ^^ n) (take_bit 8 x) = push_bit n (take_bit 8 x)"
proof (induction n)
  case 0 show ?case by simp
next
  case (Suc n)
  then show ?case using table_round_small[of n x] by simp
qed


lemma and_FFFF: "(x::int32) AND 0xFFFF = take_bit 16 x"
proof -
  have "(0xFFFF :: int32) = mask 16" by (simp add: mask_eq_exp_minus_1)
  then show ?thesis by (simp add: take_bit_eq_mask)
qed

lemma and_FF: "(x::int32) AND 0xFF = take_bit 8 x"
proof -
  have "(0xFF :: int32) = mask 8" by (simp add: mask_eq_exp_minus_1)
  then show ?thesis by (simp add: take_bit_eq_mask)
qed

lemma calc_round_eq: "calculateCrc16_round = table_round"
  by (rule ext) (simp add: calculateCrc16_round_def table_round_def)

lemma ucast_table_entry:
  "(ucast (table_entry i) :: int32) = take_bit 16 ((table_round ^^ 8) (push_bit 8 (of_nat i)))"
  unfolding table_entry_def and_FFFF
  by (rule bit_eqI) (auto simp: bit_simps)

lemma crc16_index:
  "(signed_drop_bit 8 (take_bit 16 c) XOR ucast (b::byte)) AND 0xFF
     = take_bit 8 (drop_bit 8 (take_bit 16 (c::int32)) XOR ucast b)"
  unfolding and_FF
  by (rule bit_eqI) (auto simp: bit_simps)

lemma split_register:
  "take_bit 16 (c::int32) XOR push_bit 8 (ucast (b::byte))
     = push_bit 8 (take_bit 8 (drop_bit 8 (take_bit 16 c) XOR ucast b)) XOR take_bit 8 (take_bit 16 c)"
  by (rule bit_eqI) (auto simp: bit_simps dest: bit_imp_le_length)

lemma take_bit_16_byte: "take_bit 16 (push_bit 8 (ucast (b::byte) :: int32)) = push_bit 8 (ucast b)"
  by (rule bit_eqI) (auto simp: bit_simps dest: bit_imp_le_length)

lemma low_byte_shift:
  "take_bit 16 (push_bit 8 (take_bit 8 (take_bit 16 (c::int32)))) = take_bit 16 (push_bit 8 (take_bit 16 c))"
  by (rule bit_eqI) (auto simp: bit_simps dest: bit_imp_le_length)


lemma unat_index_lt: "unat (take_bit 8 (x::int32)) < 256"
proof -
  have "unat (take_bit 8 x) = take_bit 8 (unat x)" by (rule unsigned_take_bit_eq)
  also have "\<dots> < 2 ^ 8" by (rule take_bit_nat_less_exp)
  finally show ?thesis by simp
qed

lemma crc16_update_low:
  "take_bit 16 (calculateCrc16_update b c) = crc16_update b (take_bit 16 c)"
proof -
  define c' where "c' = take_bit 16 c"
  define idx where "idx = take_bit 8 (drop_bit 8 c' XOR ucast b)"
  have lhs: "take_bit 16 (calculateCrc16_update b c)
      = take_bit 16 ((table_round ^^ 8) (push_bit 8 idx)) XOR take_bit 16 (push_bit 8 c')"
  proof -
    have "take_bit 16 (calculateCrc16_update b c)
        = take_bit 16 ((table_round ^^ 8) (take_bit 16 (c XOR push_bit 8 (ucast b))))"
      by (simp only: calculateCrc16_update_def calc_round_eq table_round8_low)
    also have "take_bit 16 (c XOR push_bit 8 (ucast b)) = push_bit 8 idx XOR take_bit 8 c'"
      by (simp only: take_bit_xor take_bit_16_byte split_register idx_def c'_def)
    also have "(table_round ^^ 8) (push_bit 8 idx XOR take_bit 8 c')
        = (table_round ^^ 8) (push_bit 8 idx) XOR push_bit 8 (take_bit 8 c')"
      by (simp only: table_round8_xor table_round_pow_small[OF order_refl])
    finally show ?thesis
      by (simp only: take_bit_xor low_byte_shift c'_def)
  qed
  have rhs: "crc16_update b c'
      = take_bit 16 (push_bit 8 c') XOR take_bit 16 ((table_round ^^ 8) (push_bit 8 idx))"
  proof -
    have i: "(signed_drop_bit 8 c' XOR ucast b) AND 0xFF = idx"
      by (simp only: c'_def idx_def crc16_index)
    have "unat idx < 256" unfolding idx_def by (rule unat_index_lt)
    then have "CRC16_CCITT_FALSE_TABLE ! unat idx = table_entry (unat idx)"
      by (rule table_nth)
    then have "(ucast (CRC16_CCITT_FALSE_TABLE ! unat idx) :: int32)
        = take_bit 16 ((table_round ^^ 8) (push_bit 8 idx))"
      by (simp add: ucast_table_entry)
    then show ?thesis
      unfolding crc16_update_def Let_def i and_FFFF
      by (simp only: take_bit_xor take_bit_take_bit min.idem)
  qed
  show ?thesis unfolding lhs c'_def[symmetric] rhs by (simp only: xor.commute)
qed

lemma fold_crc16_low:
  "take_bit 16 (fold calculateCrc16_update data c) = fold crc16_update data (take_bit 16 c)"
proof (induction data arbitrary: c)
  case Nil show ?case by simp
next
  case (Cons b data)
  show ?case by (simp add: Cons.IH crc16_update_low)
qed

lemma calculateCrc16_eq_table: "calculateCrc16 b = crc16CcittFalse b"
proof -
  have "take_bit 16 (0xFFFF :: int32) = 0xFFFF" by simp
  then show ?thesis
    unfolding calculateCrc16_def crc16CcittFalse_def and_FFFF
    by (simp only: fold_crc16_low)
qed

lemma crc16_update_is_low: "take_bit 16 (crc16_update b c) = crc16_update b c"
  by (simp add: crc16_update_def Let_def and_FFFF)

lemma crc16_fold_is_low:
  "take_bit 16 (fold crc16_update data 0xFFFF) = fold crc16_update data 0xFFFF"
proof (induction data rule: rev_induct)
  case Nil show ?case by simp
next
  case (snoc b data)
  show ?case by (simp add: crc16_update_is_low)
qed

lemma be16_bytes_of:
  "take_bit 16 (w::int32) = w \<Longrightarrow>
     be16 (ucast (signed_drop_bit 8 w AND 0xFF)) (ucast (w AND 0xFF)) = w"
  unfolding be16_def and_FF
  apply (rule bit_eqI)
  subgoal for n
    apply (drule arg_cong[where f="\<lambda>x. bit x n"])
    apply (auto simp: bit_simps dest: bit_imp_le_length)
    done
  done

lemma crc16_word_of_int:
  "(word_of_int (crc16CcittFalse data) :: int32) = fold crc16_update data 0xFFFF"
  by (simp add: crc16CcittFalse_def)

lemma crc16_vector: "crc16CcittFalse (ascii_bytes ''123456789'') = 0x29B1"
  by (simp add: ascii_bytes_def crc16CcittFalse_def crc16_update_def table_nth table_entry_def
      table_round_def funpow8)

lemma crc32_vector: "crc32 (ascii_bytes ''123456789'') = 0xCBF43926"
  by (simp add: ascii_bytes_def crc32_def crc32_update_def crc32_round_def funpow8)

text \<open>
  Claim C7. On the nine ASCII bytes of "123456789", \<open>crc16CcittFalse\<close> returns 0x29B1 and
  \<open>crc32\<close> returns 0xCBF43926. Both are functions of the bytes alone (the table is built
  once and never written again), so equal inputs give equal outputs.
\<close>

theorem crc_reference_vectors:
  "crc16CcittFalse (ascii_bytes ''123456789'') = 0x29B1
   \<and> crc32 (ascii_bytes ''123456789'') = 0xCBF43926
   \<and> (\<forall>a b. a = b \<longrightarrow> crc16CcittFalse a = crc16CcittFalse b \<and> crc32 a = crc32 b)"
  by (simp add: crc16_vector crc32_vector)

theorem crc_reference_vectors_witness:
  "crc16CcittFalse [0x31, 0x32, 0x33, 0x34, 0x35, 0x36, 0x37, 0x38, 0x39] = 0x29B1
   \<and> crc32 [0x31, 0x32, 0x33, 0x34, 0x35, 0x36, 0x37, 0x38, 0x39] = 0xCBF43926"
  using crc_reference_vectors by (simp add: ascii_bytes_def)

section \<open>Properties of the EFuse codec\<close>

lemma validate_short:
  "length raw < 7 \<Longrightarrow>
     map_option (\<lambda>e. (error_code e, severity e)) (EFuseDecoder_validate raw)
       = Some (''FRAME_TOO_SHORT'', Sev_error)"
  by (simp add: EFuseDecoder_validate_def frame_error_def)

lemma validate_start:
  "\<not> length raw < 7 \<Longrightarrow> raw ! 0 \<noteq> 0xAA \<Longrightarrow>
     map_option (\<lambda>e. (error_code e, severity e)) (EFuseDecoder_validate raw)
       = Some (''INVALID_START_MARKER'', Sev_error)"
  by (simp add: EFuseDecoder_validate_def frame_error_def)

lemma validate_end:
  "\<not> length raw < 7 \<Longrightarrow> raw ! 0 = 0xAA \<Longrightarrow> raw ! (length raw - 1) \<noteq> 0xBB \<Longrightarrow>
     map_option (\<lambda>e. (error_code e, severity e)) (EFuseDecoder_validate raw)
       = Some (''INVALID_END_MARKER'', Sev_error)"
  by (simp add: EFuseDecoder_validate_def frame_error_def)

lemma validate_length:
  "\<not> length raw < 7 \<Longrightarrow> raw ! 0 = 0xAA \<Longrightarrow> raw ! (length raw - 1) = 0xBB \<Longrightarrow>
   length raw \<noteq> 7 + unat (be16 (raw ! 2) (raw ! 3)) \<Longrightarrow>
     map_option (\<lambda>e. (error_code e, severity e)) (EFuseDecoder_validate raw)
       = Some (''LENGTH_MISMATCH'', Sev_error)"
  by (simp add: EFuseDecoder_validate_def frame_error_def Let_def)

lemma validate_structural:
  assumes "\<not> length raw < 7" "raw ! 0 = 0xAA" "raw ! (length raw - 1) = 0xBB"
    and len: "length raw = 7 + unat (be16 (raw ! 2) (raw ! 3))"
  shows "map_option (\<lambda>e. (error_code e, severity e)) (EFuseDecoder_validate raw)
       = (if sint (be16 (raw ! (length raw - 3)) (raw ! (length raw - 2)))
                \<noteq> crc16CcittFalse (take (length raw - 4) (drop 1 raw))
          then Some (''CRC_MISMATCH'', Sev_error) else None)"
proof -
  define pl where "pl = unat (be16 (raw ! 2) (raw ! 3))"
  have idx: "length raw - 3 = 4 + pl" "length raw - 2 = 4 + pl + 1" "length raw - 4 = 4 + pl - 1"
    using len by (simp_all add: pl_def)
  show ?thesis
    unfolding idx
    using assms
    by (simp add: EFuseDecoder_validate_def frame_error_def Let_def slice_def pl_def)
qed


lemma decode_None_iff:
  "EFuseDecoder_decode raw = None \<longleftrightarrow>
     length raw < 7 \<or> raw ! 0 \<noteq> 0xAA \<or> raw ! (length raw - 1) \<noteq> 0xBB
     \<or> length raw \<noteq> 7 + unat (be16 (raw ! 2) (raw ! 3))"
  by (auto simp add: EFuseDecoder_decode_def Let_def)

lemma decode_structural:
  assumes "\<not> length raw < 7" "raw ! 0 = 0xAA" "raw ! (length raw - 1) = 0xBB"
    and len: "length raw = 7 + unat (be16 (raw ! 2) (raw ! 3))"
  shows "\<exists>fr. EFuseDecoder_decode raw = Some fr
     \<and> map_option valid (checksum fr)
         = Some (sint (be16 (raw ! (length raw - 3)) (raw ! (length raw - 2)))
                  = crc16CcittFalse (take (length raw - 4) (drop 1 raw)))
     \<and> field_value ''type'' (frame_fields fr) = Some (Number (uint (raw ! 1)))
     \<and> field_value ''payload'' (frame_fields fr)
         = Some (Bytes (take (length raw - 7) (drop 4 raw)))"
proof -
  define pl where "pl = unat (be16 (raw ! 2) (raw ! 3))"
  have idx: "length raw - 3 = 4 + pl" "length raw - 2 = 4 + pl + 1" "length raw - 4 = 4 + pl - 1"
     "length raw - 7 = 4 + pl - 4"
    using len by (simp_all add: pl_def)
  show ?thesis
    unfolding idx
    using assms
    by (simp add: EFuseDecoder_decode_def Let_def slice_def pl_def field_value_def
        split: option.split)
qed


lemma replicate_frame:
  "replicate (1 + 1 + 2 + n + 2 + 1) z = z # z # z # z # replicate n z @ [z, z, z]"
proof -
  have "(1 + 1 + 2 + n + 2 + 1 :: nat) = Suc (Suc (Suc (Suc (n + Suc (Suc (Suc 0))))))"
    by simp
  then show ?thesis
    by (simp only: replicate_add replicate.simps append.simps)
qed

lemma header_updates:
  "(z0 # z1 # z2 # z3 # xs)[0 := a, 1 := b, 2 := c, 3 := d] = a # b # c # d # xs"
  by (simp add: eval_nat_numeral)

lemma drop4: "drop (4 + n) (a # b # c # d # xs) = drop n xs"
  by (simp add: eval_nat_numeral)

lemma take3: "take (3 + n) (a # b # c # xs) = a # b # c # take n xs"
  by (simp add: eval_nat_numeral)

lemma set_bytes_payload:
  "set_bytes (a # b # c # d # replicate (length p) z @ tail3) p 4 = Inr (a # b # c # d # p @ tail3)"
  by (simp add: set_bytes_def drop4)

lemma update4: "(a # b # c # d # xs)[4 + n := v] = a # b # c # d # xs[n := v]"
  by (simp add: eval_nat_numeral)

lemma trailer_updates:
  "(a # b # c # d # p @ [z0, z1, z2])[4 + length p := x, 4 + length p + 1 := y, 4 + length p + 2 := w]
     = a # b # c # d # p @ [x, y, w]"
proof -
  have "4 + length p + 1 = 4 + (length p + 1)" "4 + length p + 2 = 4 + (length p + 2)"
    by simp_all
  then show ?thesis
    by (simp add: update4 list_update_append)
qed

lemma slice_crcData: "slice (a # t # hi # lo # p @ rest) 1 (4 + length p) = t # hi # lo # p"
  by (simp add: slice_def take3)

lemma encode_layout:
  assumes "find (\<lambda>f. name f = ''type'') fs = Some tf" "fvalue tf = Number t"
    and "find (\<lambda>f. name f = ''payload'') fs = Some pf" "fvalue pf = Bytes p"
  shows "EFuseDecoder_encode fs =
     Inr ([0xAA, word_of_int t,
           ucast (signed_drop_bit 8 (word_of_nat (length p) :: int32) AND 0xFF),
           ucast ((word_of_nat (length p) :: int32) AND 0xFF)] @ p @
          [ucast (signed_drop_bit 8 (fold crc16_update
              ([word_of_int t,
                ucast (signed_drop_bit 8 (word_of_nat (length p) :: int32) AND 0xFF),
                ucast ((word_of_nat (length p) :: int32) AND 0xFF)] @ p) 0xFFFF) AND 0xFF),
           ucast (fold crc16_update
              ([word_of_int t,
                ucast (signed_drop_bit 8 (word_of_nat (length p) :: int32) AND 0xFF),
                ucast ((word_of_nat (length p) :: int32) AND 0xFF)] @ p) 0xFFFF AND 0xFF),
           0xBB])"
  unfolding EFuseDecoder_encode_def
  apply (simp only: assms prod.case option.case js_value.case Let_def replicate_frame)
  apply (simp only: header_updates set_bytes_payload sum.case slice_crcData
      crc16_word_of_int trailer_updates append.simps)
  done


lemma layout_facts:
  fixes a t hi lo :: byte and p :: "byte list" and chi clo e :: byte
  defines "raw \<equiv> [a, t, hi, lo] @ p @ [chi, clo, e]"
  shows "length raw = 7 + length p"
    and "raw ! 0 = a" and "raw ! 1 = t" and "raw ! 2 = hi" and "raw ! 3 = lo"
    and "raw ! (length raw - 1) = e"
    and "raw ! (length raw - 3) = chi"
    and "raw ! (length raw - 2) = clo"
    and "take (length raw - 4) (drop 1 raw) = [t, hi, lo] @ p"
    and "take (length raw - 7) (drop 4 raw) = p"
proof -
  show "length raw = 7 + length p" by (simp add: raw_def)
  show "raw ! 0 = a" "raw ! 1 = t" "raw ! 2 = hi" "raw ! 3 = lo"
    by (simp_all add: raw_def eval_nat_numeral)
  have r: "raw = (a # t # hi # lo # p) @ [chi, clo, e]" by (simp add: raw_def)
  have l: "length (a # t # hi # lo # p) = 4 + length p" by simp
  show "raw ! (length raw - 1) = e"
    unfolding r by (simp add: nth_append eval_nat_numeral)
  show "raw ! (length raw - 3) = chi"
    unfolding r by (simp add: nth_append eval_nat_numeral)
  show "raw ! (length raw - 2) = clo"
    unfolding r by (simp add: nth_append eval_nat_numeral)
  show "take (length raw - 4) (drop 1 raw) = [t, hi, lo] @ p"
    by (simp add: raw_def take3)
  show "take (length raw - 7) (drop 4 raw) = p"
    by (simp add: raw_def drop4[of 0, simplified])
qed

lemma decode_on_layout:
  assumes "unat (be16 hi lo) = length p"
  shows "\<exists>fr. EFuseDecoder_decode ([0xAA, t, hi, lo] @ p @ [chi, clo, 0xBB]) = Some fr
     \<and> map_option valid (checksum fr)
         = Some (sint (be16 chi clo) = crc16CcittFalse ([t, hi, lo] @ p))
     \<and> field_value ''type'' (frame_fields fr) = Some (Number (uint t))
     \<and> field_value ''payload'' (frame_fields fr) = Some (Bytes p)"
proof -
  let ?raw = "[0xAA, t, hi, lo] @ p @ [chi, clo, 0xBB]"
  note f = layout_facts[of "0xAA" t hi lo p chi clo "0xBB"]
  have s1: "\<not> length ?raw < 7" by simp
  have s2: "?raw ! 0 = 0xAA" by (rule f)
  have s3: "?raw ! (length ?raw - 1) = 0xBB" by (rule f)
  have s4: "length ?raw = 7 + unat (be16 (?raw ! 2) (?raw ! 3))"
    unfolding f(4) f(5) assms by (rule f(1))
  from decode_structural[OF s1 s2 s3 s4] show ?thesis
    by (simp only: f(3) f(7) f(8) f(9) f(10))
qed

lemma validate_on_layout:
  assumes "unat (be16 hi lo) = length p"
  shows "map_option (\<lambda>e. (error_code e, severity e))
           (EFuseDecoder_validate ([0xAA, t, hi, lo] @ p @ [chi, clo, 0xBB]))
       = (if sint (be16 chi clo) \<noteq> crc16CcittFalse ([t, hi, lo] @ p)
          then Some (''CRC_MISMATCH'', Sev_error) else None)"
proof -
  let ?raw = "[0xAA, t, hi, lo] @ p @ [chi, clo, 0xBB]"
  note f = layout_facts[of "0xAA" t hi lo p chi clo "0xBB"]
  have s1: "\<not> length ?raw < 7" by simp
  have s2: "?raw ! 0 = 0xAA" by (rule f)
  have s3: "?raw ! (length ?raw - 1) = 0xBB" by (rule f)
  have s4: "length ?raw = 7 + unat (be16 (?raw ! 2) (?raw ! 3))"
    unfolding f(4) f(5) assms by (rule f(1))
  from validate_structural[OF s1 s2 s3 s4] show ?thesis
    by (simp only: f(7) f(8) f(9))
qed

lemma length_bytes:
  assumes "n \<le> 65535"
  shows "unat (be16 (ucast (signed_drop_bit 8 (word_of_nat n :: int32) AND 0xFF))
                    (ucast ((word_of_nat n :: int32) AND 0xFF))) = n"
proof -
  have n: "n < 2 ^ 16" using assms by simp
  then have "take_bit 16 n = n" by (simp only: take_bit_nat_eq_self_iff)
  then have "take_bit 16 (word_of_nat n :: int32) = word_of_nat n"
    by (metis of_nat_take_bit)
  then have "be16 (ucast (signed_drop_bit 8 (word_of_nat n :: int32) AND 0xFF))
                    (ucast ((word_of_nat n :: int32) AND 0xFF)) = word_of_nat n"
    by (rule be16_bytes_of)
  moreover have "unat (word_of_nat n :: int32) = n"
    using assms by (simp add: unat_of_nat)
  ultimately show ?thesis by simp
qed

lemma crc_bytes:
  "sint (be16 (ucast (signed_drop_bit 8 (fold crc16_update bs 0xFFFF) AND 0xFF))
              (ucast (fold crc16_update bs 0xFFFF AND 0xFF))) = crc16CcittFalse bs"
  by (simp only: be16_bytes_of[OF crc16_fold_is_low] crc16CcittFalse_def)

lemma type_byte: "0 \<le> t \<Longrightarrow> t \<le> 255 \<Longrightarrow> uint (word_of_int t :: byte) = t"
  by (simp add: uint_word_of_int)

lemma encode_then_decode:
  assumes "find (\<lambda>f. name f = ''type'') fs = Some tf" "fvalue tf = Number t"
    and "find (\<lambda>f. name f = ''payload'') fs = Some pf" "fvalue pf = Bytes p"
    and "0 \<le> t" "t \<le> 255" "length p \<le> 65535"
  shows "\<exists>raw fr. EFuseDecoder_encode fs = Inr raw \<and> EFuseDecoder_decode raw = Some fr
     \<and> field_value ''type'' (frame_fields fr) = Some (Number t)
     \<and> field_value ''payload'' (frame_fields fr) = Some (Bytes p)
     \<and> map_option valid (checksum fr) = Some True"
proof -
  let ?t = "word_of_int t :: byte"
  let ?hi = "ucast (signed_drop_bit 8 (word_of_nat (length p) :: int32) AND 0xFF) :: byte"
  let ?lo = "ucast ((word_of_nat (length p) :: int32) AND 0xFF) :: byte"
  let ?crc = "fold crc16_update ([?t, ?hi, ?lo] @ p) 0xFFFF"
  let ?chi = "ucast (signed_drop_bit 8 ?crc AND 0xFF) :: byte"
  let ?clo = "ucast (?crc AND 0xFF) :: byte"
  let ?raw = "[0xAA, ?t, ?hi, ?lo] @ p @ [?chi, ?clo, 0xBB]"
  have enc: "EFuseDecoder_encode fs = Inr ?raw"
    by (rule encode_layout[OF assms(1-4)])
  obtain fr where d: "EFuseDecoder_decode ?raw = Some fr"
    and v: "map_option valid (checksum fr)
              = Some (sint (be16 ?chi ?clo) = crc16CcittFalse ([?t, ?hi, ?lo] @ p))"
    and ty: "field_value ''type'' (frame_fields fr) = Some (Number (uint ?t))"
    and pl: "field_value ''payload'' (frame_fields fr) = Some (Bytes p)"
    using decode_on_layout[OF length_bytes[OF assms(7)], of ?t ?chi ?clo] by blast
  have "sint (be16 ?chi ?clo) = crc16CcittFalse ([?t, ?hi, ?lo] @ p)"
    by (rule crc_bytes)
  with v have v': "map_option valid (checksum fr) = Some True" by simp
  have "uint ?t = t" by (rule type_byte[OF assms(5,6)])
  with ty have ty': "field_value ''type'' (frame_fields fr) = Some (Number t)" by simp
  from enc d ty' pl v' show ?thesis by blast
qed

lemma validate_cases:
  "map_option (\<lambda>e. (error_code e, severity e)) (EFuseDecoder_validate raw) =
     (if length raw < 7 then Some (''FRAME_TOO_SHORT'', Sev_error)
      else if raw ! 0 \<noteq> 0xAA then Some (''INVALID_START_MARKER'', Sev_error)
      else if raw ! (length raw - 1) \<noteq> 0xBB then Some (''INVALID_END_MARKER'', Sev_error)
      else if length raw \<noteq> 7 + unat (be16 (raw ! 2) (raw ! 3))
        then Some (''LENGTH_MISMATCH'', Sev_error)
      else if sint (be16 (raw ! (length raw - 3)) (raw ! (length raw - 2)))
                \<noteq> crc16CcittFalse (take (length raw - 4) (drop 1 raw))
        then Some (''CRC_MISMATCH'', Sev_error)
      else None)"
proof (cases "length raw < 7")
  case True
  then show ?thesis by (simp only: validate_short if_True)
next
  case short: False
  show ?thesis
  proof (cases "raw ! 0 = 0xAA")
    case False
    with short show ?thesis by (simp only: validate_start if_False if_True simp_thms)
  next
    case start: True
    show ?thesis
    proof (cases "raw ! (length raw - 1) = 0xBB")
      case False
      with short start show ?thesis
        by (simp only: validate_end if_False if_True simp_thms)
    next
      case end_ok: True
      show ?thesis
      proof (cases "length raw = 7 + unat (be16 (raw ! 2) (raw ! 3))")
        case False
        with short start end_ok show ?thesis
          by (simp only: validate_length if_False if_True simp_thms)
      next
        case True
        from validate_structural[OF short start end_ok True] short start end_ok True
        show ?thesis by (simp only: if_False if_True simp_thms)
      qed
    qed
  qed
qed

lemma validate_None_D:
  assumes "EFuseDecoder_validate raw = None"
  shows "\<not> length raw < 7" "raw ! 0 = 0xAA" "raw ! (length raw - 1) = 0xBB"
    "length raw = 7 + unat (be16 (raw ! 2) (raw ! 3))"
    "sint (be16 (raw ! (length raw - 3)) (raw ! (length raw - 2)))
        = crc16CcittFalse (take (length raw - 4) (drop 1 raw))"
  using validate_cases[of raw] assms
  by (simp_all split: if_splits)

lemma be16_low: "(ucast (be16 a b) :: byte) = b"
  unfolding be16_def by (rule bit_eqI) (auto simp: bit_simps dest: bit_imp_le_length)

lemma be16_high: "(ucast (drop_bit 8 (be16 a b)) :: byte) = a"
  unfolding be16_def by (rule bit_eqI) (auto simp: bit_simps dest: bit_imp_le_length)

lemma be16_inject: "be16 a b = be16 c d \<longleftrightarrow> a = c \<and> b = d"
  by (metis be16_low be16_high)

lemma sint_be16_inject: "sint (be16 a b) = sint (be16 c d) \<longleftrightarrow> a = c \<and> b = d"
  by (metis be16_inject signed_word_eqI)


lemma flipped_crc_byte:
  assumes wf: "EFuseDecoder_validate raw = None"
    and i: "i = length raw - 3 \<or> i = length raw - 2"
    and v: "v \<noteq> raw ! i"
  shows "map_option (\<lambda>e. (error_code e, severity e)) (EFuseDecoder_validate (raw[i := v]))
           = Some (''CRC_MISMATCH'', Sev_error)
       \<and> (\<exists>fr. EFuseDecoder_decode (raw[i := v]) = Some fr
              \<and> map_option valid (checksum fr) = Some False)"
proof -
  let ?raw' = "raw[i := v]"
  note d = validate_None_D[OF wf]
  have n: "7 \<le> length raw" using d(1) by simp
  have len: "length ?raw' = length raw" by simp
  have i4: "4 \<le> i" "i < length raw - 1" "length raw - 4 \<le> i - 1" "i < length raw"
    using i n by linarith+
  have s1: "\<not> length ?raw' < 7" using n by simp
  have "?raw' ! 0 = raw ! 0" using i4(1) by simp
  then have s2: "?raw' ! 0 = 0xAA" by (simp only: d(2))
  have "?raw' ! (length raw - 1) = raw ! (length raw - 1)" using i4(2) by simp
  then have s3: "?raw' ! (length ?raw' - 1) = 0xBB" by (simp only: d(3) len)
  have "?raw' ! 2 = raw ! 2" "?raw' ! 3 = raw ! 3" using i4(1) by simp_all
  then have s4: "length ?raw' = 7 + unat (be16 (?raw' ! 2) (?raw' ! 3))"
    by (simp only: len) (rule d(4))
  have "drop 1 ?raw' = (drop 1 raw)[i - 1 := v]"
    using i4(1) by (simp add: drop_update_swap)
  then have data: "take (length raw - 4) (drop 1 ?raw') = take (length raw - 4) (drop 1 raw)"
    using i4(3) by (simp only: take_update_cancel)
  have neq: "?raw' ! (length raw - 3) \<noteq> raw ! (length raw - 3)
             \<or> ?raw' ! (length raw - 2) \<noteq> raw ! (length raw - 2)"
  proof (rule disjE[OF i])
    assume e: "i = length raw - 3"
    have "?raw' ! i = v" using i4(4) by simp
    with v e show ?thesis by simp
  next
    assume e: "i = length raw - 2"
    have "?raw' ! i = v" using i4(4) by simp
    with v e show ?thesis by simp
  qed
  then have "sint (be16 (?raw' ! (length raw - 3)) (?raw' ! (length raw - 2)))
          \<noteq> sint (be16 (raw ! (length raw - 3)) (raw ! (length raw - 2)))"
    by (simp only: sint_be16_inject de_Morgan_conj)
  then have "sint (be16 (?raw' ! (length raw - 3)) (?raw' ! (length raw - 2)))
          \<noteq> crc16CcittFalse (take (length raw - 4) (drop 1 raw))"
    unfolding d(5) .
  then have crc: "sint (be16 (?raw' ! (length ?raw' - 3)) (?raw' ! (length ?raw' - 2)))
          \<noteq> crc16CcittFalse (take (length ?raw' - 4) (drop 1 ?raw'))"
    by (simp only: len data simp_thms)
  from validate_structural[OF s1 s2 s3 s4] crc
  have "map_option (\<lambda>e. (error_code e, severity e)) (EFuseDecoder_validate ?raw')
           = Some (''CRC_MISMATCH'', Sev_error)"
    by (simp only: if_True simp_thms)
  moreover from decode_structural[OF s1 s2 s3 s4] crc
  have "\<exists>fr. EFuseDecoder_decode ?raw' = Some fr
              \<and> map_option valid (checksum fr) = Some False"
    by (simp only: simp_thms) blast
  ultimately show ?thesis by (rule conjI)
qed

lemmas crc16_eval = crc16CcittFalse_def crc16_update_def table_nth table_entry_def
  table_round_def funpow8

lemma sample_crc: "crc16CcittFalse [1, 0, 2, 8, 0] = 0x5C94"
  by (simp add: crc16_eval)

lemma good_frame_validate:
  "EFuseDecoder_validate [0xAA, 1, 0, 2, 8, 0, 0x5C, 0x94, 0xBB] = None"
proof -
  have "unat (be16 0 2) = length [8, 0 :: byte]" by (simp add: be16_def)
  from validate_on_layout[OF this, of 1 "0x5C" "0x94"]
  show ?thesis by (simp add: sample_crc be16_def)
qed

lemma good_frame_decode:
  "\<exists>fr. EFuseDecoder_decode [0xAA, 1, 0, 2, 8, 0, 0x5C, 0x94, 0xBB] = Some fr
      \<and> map_option valid (checksum fr) = Some True"
proof -
  have "unat (be16 0 2) = length [8, 0 :: byte]" by (simp add: be16_def)
  from decode_on_layout[OF this, of 1 "0x5C" "0x94"]
  obtain fr where "EFuseDecoder_decode ([0xAA, 1, 0, 2] @ [8, 0] @ [0x5C, 0x94, 0xBB]) = Some fr"
    and "map_option valid (checksum fr)
           = Some (sint (be16 0x5C 0x94) = crc16CcittFalse ([1, 0, 2] @ [8, 0]))"
    by blast
  then have "EFuseDecoder_decode [0xAA, 1, 0, 2, 8, 0, 0x5C, 0x94, 0xBB] = Some fr
      \<and> map_option valid (checksum fr) = Some True"
    by (simp add: sample_crc be16_def)
  then show ?thesis by blast
qed

lemma sample_frame_layout:
  "generateSampleFrame a =
     [0xAA, 1, 0, 2]
      @ [ucast (signed_drop_bit 8 (ToInt32 a) AND 0xFF), ucast (ToInt32 a AND 0xFF)]
      @ [ucast (signed_drop_bit 8 (fold crc16_update
            ([1, 0, 2] @ [ucast (signed_drop_bit 8 (ToInt32 a) AND 0xFF),
                           ucast (ToInt32 a AND 0xFF)]) 0xFFFF) AND 0xFF),
         ucast (fold crc16_update
            ([1, 0, 2] @ [ucast (signed_drop_bit 8 (ToInt32 a) AND 0xFF),
                           ucast (ToInt32 a AND 0xFF)]) 0xFFFF AND 0xFF),
         0xBB]"
  by (simp add: generateSampleFrame_def Let_def calculateCrc16_eq_table crc16_word_of_int)

text \<open>
  Claim C1 (EFuse round trip). Take a field list whose \<open>type\<close> field holds a number between
  0 and 255 and whose \<open>payload\<close> field holds at most 65535 bytes. Then \<open>encode\<close> returns a
  frame, \<open>decode\<close> of that frame returns a decoded frame, its \<open>type\<close> field is the input
  type, its \<open>payload\<close> field is the input payload, and \<open>checksum.valid\<close> is true.
\<close>

theorem efuse_round_trip:
  assumes "field_value ''type'' fs = Some (Number t)" and "0 \<le> t" and "t \<le> 255"
    and "field_value ''payload'' fs = Some (Bytes p)" and "length p \<le> 65535"
  shows "\<exists>raw fr. EFuseDecoder_encode fs = Inr raw \<and> EFuseDecoder_decode raw = Some fr
     \<and> field_value ''type'' (frame_fields fr) = Some (Number t)
     \<and> field_value ''payload'' (frame_fields fr) = Some (Bytes p)
     \<and> map_option valid (checksum fr) = Some True"
proof -
  from assms(1) obtain tf where tf: "find (\<lambda>f. name f = ''type'') fs = Some tf"
      "fvalue tf = Number t"
    by (auto simp: field_value_def)
  from assms(4) obtain pf where pf: "find (\<lambda>f. name f = ''payload'') fs = Some pf"
      "fvalue pf = Bytes p"
    by (auto simp: field_value_def)
  show ?thesis
    by (rule encode_then_decode[OF tf pf assms(2,3,5)])
qed

theorem efuse_round_trip_witness:
  "\<exists>raw fr.
     EFuseDecoder_encode
       [\<lparr>name = ''type'', fvalue = Number 1, ftype = T_uint8, raw_bytes = [1], offset = 1,
          scaling = None, funit = None\<rparr>,
        \<lparr>name = ''payload'', fvalue = Bytes [8, 0], ftype = T_bytes, raw_bytes = [8, 0],
          offset = 4, scaling = None, funit = None\<rparr>] = Inr raw
     \<and> EFuseDecoder_decode raw = Some fr
     \<and> field_value ''type'' (frame_fields fr) = Some (Number 1)
     \<and> field_value ''payload'' (frame_fields fr) = Some (Bytes [8, 0])
     \<and> map_option valid (checksum fr) = Some True"
  by (rule efuse_round_trip) (simp_all add: field_value_def)

text \<open>
  Claim C2 (EFuse decode policy), as amended. \<open>decode\<close> returns \<open>null\<close> exactly when the input
  has fewer than 7 bytes, or its first byte is not 0xAA, or its last byte is not 0xBB, or
  its length differs from 7 plus the declared payload length (the claim says 6 plus the
  length; the source adds 1 + 1 + 2 + length + 2 + 1). The CRC plays no part in that
  decision: whenever a frame is returned, \<open>checksum.valid\<close> reports whether the two stored
  CRC bytes equal the CRC computed over type, length and payload.
\<close>

theorem efuse_decode_policy:
  "(EFuseDecoder_decode raw = None \<longleftrightarrow>
      length raw < 7 \<or> raw ! 0 \<noteq> 0xAA \<or> raw ! (length raw - 1) \<noteq> 0xBB
      \<or> length raw \<noteq> 7 + unat (be16 (raw ! 2) (raw ! 3)))
   \<and> (\<forall>fr. EFuseDecoder_decode raw = Some fr \<longrightarrow>
         map_option valid (checksum fr)
           = Some (sint (be16 (raw ! (length raw - 3)) (raw ! (length raw - 2)))
                    = crc16CcittFalse (take (length raw - 4) (drop 1 raw))))"
proof (rule conjI)
  show "EFuseDecoder_decode raw = None \<longleftrightarrow>
      length raw < 7 \<or> raw ! 0 \<noteq> 0xAA \<or> raw ! (length raw - 1) \<noteq> 0xBB
      \<or> length raw \<noteq> 7 + unat (be16 (raw ! 2) (raw ! 3))"
    by (rule decode_None_iff)
next
  show "\<forall>fr. EFuseDecoder_decode raw = Some fr \<longrightarrow>
         map_option valid (checksum fr)
           = Some (sint (be16 (raw ! (length raw - 3)) (raw ! (length raw - 2)))
                    = crc16CcittFalse (take (length raw - 4) (drop 1 raw)))"
  proof (intro allI impI)
    fix fr assume a: "EFuseDecoder_decode raw = Some fr"
    then have "EFuseDecoder_decode raw \<noteq> None" by simp
    then have s: "\<not> length raw < 7" "raw ! 0 = 0xAA" "raw ! (length raw - 1) = 0xBB"
        "length raw = 7 + unat (be16 (raw ! 2) (raw ! 3))"
      by (metis decode_None_iff)+
    from decode_structural[OF s] a show "map_option valid (checksum fr)
           = Some (sint (be16 (raw ! (length raw - 3)) (raw ! (length raw - 2)))
                    = crc16CcittFalse (take (length raw - 4) (drop 1 raw)))"
      by auto
  qed
qed

theorem efuse_decode_policy_witness:
  "EFuseDecoder_decode [0xAA, 1, 0, 2, 8, 0, 0, 0, 0xBB] \<noteq> None
   \<and> (\<exists>fr. EFuseDecoder_decode [0xAA, 1, 0, 2, 8, 0, 0, 0, 0xBB] = Some fr
         \<and> map_option valid (checksum fr) = Some False)"
proof -
  let ?raw = "[0xAA, 1, 0, 2, 8, 0, 0, 0, 0xBB] :: byte list"
  note p = efuse_decode_policy[of ?raw]
  have ne: "EFuseDecoder_decode ?raw \<noteq> None"
    using p by (simp add: be16_def)
  then obtain fr where fr: "EFuseDecoder_decode ?raw = Some fr" by blast
  with p have "map_option valid (checksum fr)
           = Some (sint (be16 (?raw ! (length ?raw - 3)) (?raw ! (length ?raw - 2)))
                    = crc16CcittFalse (take (length ?raw - 4) (drop 1 ?raw)))"
    by blast
  then have "map_option valid (checksum fr) = Some False"
    by (simp add: be16_def sample_crc)
  with ne fr show ?thesis by blast
qed

text \<open>
  The claim as stated fails on a frame that \<open>encode\<close> itself produces: nine bytes with a
  declared payload length of 2. Under "total = 6 + length" the lengths do not match, so
  the claim makes \<open>decode\<close> return \<open>null\<close>; it returns a frame.
\<close>

theorem efuse_decode_policy_counterexample:
  "\<not> (EFuseDecoder_decode [0xAA, 1, 0, 2, 8, 0, 0x5C, 0x94, 0xBB] = None \<longleftrightarrow>
        length [0xAA, 1, 0, 2, 8, 0, 0x5C, 0x94, 0xBB :: byte] < 7
        \<or> [0xAA, 1, 0, 2, 8, 0, 0x5C, 0x94, 0xBB :: byte] ! 0 \<noteq> 0xAA
        \<or> [0xAA, 1, 0, 2, 8, 0, 0x5C, 0x94, 0xBB :: byte] ! (9 - 1) \<noteq> 0xBB
        \<or> length [0xAA, 1, 0, 2, 8, 0, 0x5C, 0x94, 0xBB :: byte]
             \<noteq> 6 + unat (be16 ([0xAA, 1, 0, 2, 8, 0, 0x5C, 0x94, 0xBB] ! 2)
                                 ([0xAA, 1, 0, 2, 8, 0, 0x5C, 0x94, 0xBB] ! 3)))"
  using good_frame_decode by (auto simp add: be16_def)

text \<open>
  Claim C3 (EFuse validate: codes and order). \<open>validate\<close> reports the first problem in the
  order FRAME_TOO_SHORT (fewer than 7 bytes), INVALID_START_MARKER (first byte not 0xAA),
  INVALID_END_MARKER (last byte not 0xBB), LENGTH_MISMATCH (length differs from 7 plus
  the declared payload length), CRC_MISMATCH (the two bytes before the end marker differ
  from the CRC-16/CCITT-FALSE of the bytes between the start marker and them). Every error
  has severity \<open>error\<close>, and a frame with none of these problems gives \<open>null\<close>.
\<close>

theorem efuse_validate_order:
  "map_option (\<lambda>e. (error_code e, severity e)) (EFuseDecoder_validate raw) =
     (if length raw < 7 then Some (''FRAME_TOO_SHORT'', Sev_error)
      else if raw ! 0 \<noteq> 0xAA then Some (''INVALID_START_MARKER'', Sev_error)
      else if raw ! (length raw - 1) \<noteq> 0xBB then Some (''INVALID_END_MARKER'', Sev_error)
      else if length raw \<noteq> 7 + unat (be16 (raw ! 2) (raw ! 3))
        then Some (''LENGTH_MISMATCH'', Sev_error)
      else if sint (be16 (raw ! (length raw - 3)) (raw ! (length raw - 2)))
                \<noteq> crc16CcittFalse (take (length raw - 4) (drop 1 raw))
        then Some (''CRC_MISMATCH'', Sev_error)
      else None)"
  by (rule validate_cases)

theorem efuse_validate_order_witness:
  "map_option (\<lambda>e. (error_code e, severity e))
     (EFuseDecoder_validate [0xAA, 1, 0, 2, 8, 0, 0, 0, 0xBB])
     = Some (''CRC_MISMATCH'', Sev_error)
   \<and> map_option (\<lambda>e. (error_code e, severity e))
     (EFuseDecoder_validate [0xAA, 1, 0, 5, 8, 0, 0x5C, 0x94, 0xBB])
     = Some (''LENGTH_MISMATCH'', Sev_error)
   \<and> map_option (\<lambda>e. (error_code e, severity e))
     (EFuseDecoder_validate [0xAA, 1, 0, 2, 8, 0, 0x5C, 0x94, 0xBB]) = None"
  using efuse_validate_order[of "[0xAA, 1, 0, 2, 8, 0, 0, 0, 0xBB]"]
    efuse_validate_order[of "[0xAA, 1, 0, 5, 8, 0, 0x5C, 0x94, 0xBB]"]
    efuse_validate_order[of "[0xAA, 1, 0, 2, 8, 0, 0x5C, 0x94, 0xBB]"]
  by (simp add: be16_def sample_crc)

text \<open>
  Claim C4 (validate and decode are independent). Take a well-formed frame: \<open>validate\<close>
  returns \<open>null\<close> and \<open>decode\<close> returns a frame whose checksum is valid. Replace one of its
  two CRC bytes by any different value. On the result \<open>validate\<close> returns CRC_MISMATCH, and
  \<open>decode\<close> still returns a frame, now with \<open>checksum.valid\<close> false.
\<close>

theorem efuse_crc_flip:
  assumes "EFuseDecoder_validate raw = None"
    and "\<exists>fr. EFuseDecoder_decode raw = Some fr \<and> map_option valid (checksum fr) = Some True"
    and "i = length raw - 3 \<or> i = length raw - 2"
    and "v \<noteq> raw ! i"
  shows "map_option error_code (EFuseDecoder_validate (raw[i := v])) = Some ''CRC_MISMATCH''
       \<and> (\<exists>fr. EFuseDecoder_decode (raw[i := v]) = Some fr
              \<and> map_option valid (checksum fr) = Some False)"
proof -
  from flipped_crc_byte[OF assms(1) assms(3) assms(4)]
  have a: "map_option (\<lambda>e. (error_code e, severity e)) (EFuseDecoder_validate (raw[i := v]))
           = Some (''CRC_MISMATCH'', Sev_error)"
    and b: "\<exists>fr. EFuseDecoder_decode (raw[i := v]) = Some fr
              \<and> map_option valid (checksum fr) = Some False"
    by blast+
  from a have "map_option error_code (EFuseDecoder_validate (raw[i := v])) = Some ''CRC_MISMATCH''"
    by (cases "EFuseDecoder_validate (raw[i := v])") simp_all
  then show ?thesis using b by (rule conjI)
qed

theorem efuse_crc_flip_witness:
  "map_option error_code
     (EFuseDecoder_validate ([0xAA, 1, 0, 2, 8, 0, 0x5C, 0x94, 0xBB][6 := 0xA3]))
       = Some ''CRC_MISMATCH''
   \<and> (\<exists>fr. EFuseDecoder_decode ([0xAA, 1, 0, 2, 8, 0, 0x5C, 0x94, 0xBB][6 := 0xA3]) = Some fr
          \<and> map_option valid (checksum fr) = Some False)"
  by (rule efuse_crc_flip[OF good_frame_validate good_frame_decode]) simp_all

text \<open>
  Claim C10 (the simulator's CRC refines the codec's). On every byte sequence the bitwise
  \<open>calculateCrc16\<close> of the UART simulator returns what the table-driven \<open>crc16CcittFalse\<close>
  returns. So every sample frame of burst mode, whatever ADC value it carries, passes
  \<open>validate\<close> and decodes with a valid checksum.
\<close>

theorem calculateCrc16_refines:
  "calculateCrc16 b = crc16CcittFalse b
   \<and> EFuseDecoder_validate (generateSampleFrame adcValue) = None
   \<and> (\<exists>fr. EFuseDecoder_decode (generateSampleFrame adcValue) = Some fr
          \<and> map_option valid (checksum fr) = Some True)"
proof -
  let ?p = "[ucast (signed_drop_bit 8 (ToInt32 adcValue) AND 0xFF),
             ucast (ToInt32 adcValue AND 0xFF)] :: byte list"
  let ?crc = "fold crc16_update ([1, 0, 2] @ ?p) 0xFFFF"
  let ?chi = "ucast (signed_drop_bit 8 ?crc AND 0xFF) :: byte"
  let ?clo = "ucast (?crc AND 0xFF) :: byte"
  have lay: "generateSampleFrame adcValue = [0xAA, 1, 0, 2] @ ?p @ [?chi, ?clo, 0xBB]"
    by (rule sample_frame_layout)
  have len: "unat (be16 0 2) = length ?p" by (simp add: be16_def)
  have crc: "sint (be16 ?chi ?clo) = crc16CcittFalse ([1, 0, 2] @ ?p)"
    by (rule crc_bytes)
  from validate_on_layout[OF len, of 1 ?chi ?clo] crc
  have "map_option (\<lambda>e. (error_code e, severity e))
          (EFuseDecoder_validate (generateSampleFrame adcValue)) = None"
    unfolding lay by (simp only: simp_thms if_False)
  then have v: "EFuseDecoder_validate (generateSampleFrame adcValue) = None"
    by simp
  from decode_on_layout[OF len, of 1 ?chi ?clo] crc
  have d: "\<exists>fr. EFuseDecoder_decode (generateSampleFrame adcValue) = Some fr
          \<and> map_option valid (checksum fr) = Some True"
    unfolding lay by (simp only: simp_thms) blast
  from calculateCrc16_eq_table v d show ?thesis by blast
qed

theorem calculateCrc16_refines_witness:
  "calculateCrc16 [1, 0, 2, 8, 0] = 0x5C94
   \<and> EFuseDecoder_validate (generateSampleFrame 2048) = None"
  using calculateCrc16_refines[of "[1, 0, 2, 8, 0]" 2048] by (simp add: sample_crc)

section \<open>Properties of the COBS codec\<close>

text \<open>The store \<open>result[codeIndex] = code\<close> never leaves the array: the index of the pending
  code byte stays below the length throughout the loop.\<close>

lemma cobsEncode_index_in_range:
  "fold cobsEncode_step xs (r, ci, c) = (r', ci', c') \<Longrightarrow> ci < length r \<Longrightarrow> ci' < length r'"
proof (induction xs arbitrary: r ci c)
  case Nil
  then show ?case by simp
next
  case (Cons x xs)
  obtain r1 ci1 c1 where s: "cobsEncode_step x (r, ci, c) = (r1, ci1, c1)"
    by (cases "cobsEncode_step x (r, ci, c)") auto
  have "ci1 < length r1"
    using s Cons.prems(2) by (auto simp: cobsEncode_step_def Let_def split: if_splits)
  moreover have "fold cobsEncode_step xs (r1, ci1, c1) = (r', ci', c')"
    using Cons.prems(1) s by simp
  ultimately show ?case by (rule Cons.IH[rotated])
qed

lemma map_of_nat_unat: "map (word_of_nat \<circ> unat) (bs :: byte list) = bs"
  by (induction bs) simp_all

lemma cobsEncode_fold:
  "fold cobsEncode_step xs (dn @ 0 # map unat cur, length dn, length cur + 1) = (r, ci, c)
     \<Longrightarrow> map word_of_nat (r[ci := c]) = map word_of_nat dn @ cobs_blocks cur xs"
proof (induction xs arbitrary: dn cur r ci c)
  case Nil
  then show ?case by (auto simp: list_update_append map_of_nat_unat)
next
  case (Cons x xs)
  show ?case
  proof (cases "x = 0")
    case True
    let ?dn' = "dn @ (length cur + 1) # map unat cur"
    have "cobsEncode_step x (dn @ 0 # map unat cur, length dn, length cur + 1)
            = (?dn' @ 0 # map unat [], length ?dn', length ([]::byte list) + 1)"
      using True by (simp add: cobsEncode_step_def Let_def list_update_append)
    with Cons.prems have "fold cobsEncode_step xs
        (?dn' @ 0 # map unat [], length ?dn', length ([]::byte list) + 1) = (r, ci, c)"
      by simp
    from Cons.IH[OF this] True show ?thesis
      by (simp add: map_of_nat_unat)
  next
    case False
    show ?thesis
    proof (cases "length cur + 2 = 0xFF")
      case True
      let ?dn' = "dn @ 0xFF # map unat (cur @ [x])"
      have "cobsEncode_step x (dn @ 0 # map unat cur, length dn, length cur + 1)
            = (?dn' @ 0 # map unat [], length ?dn', length ([]::byte list) + 1)"
        using True False by (simp add: cobsEncode_step_def Let_def list_update_append)
      with Cons.prems have "fold cobsEncode_step xs
        (?dn' @ 0 # map unat [], length ?dn', length ([]::byte list) + 1) = (r, ci, c)"
        by simp
      from Cons.IH[OF this] True False show ?thesis
        by (simp add: map_of_nat_unat)
    next
      case nf: False
      have "cobsEncode_step x (dn @ 0 # map unat cur, length dn, length cur + 1)
            = (dn @ 0 # map unat (cur @ [x]), length dn, length (cur @ [x]) + 1)"
        using nf False by (simp add: cobsEncode_step_def Let_def)
      with Cons.prems have "fold cobsEncode_step xs
        (dn @ 0 # map unat (cur @ [x]), length dn, length (cur @ [x]) + 1) = (r, ci, c)"
        by simp
      from Cons.IH[OF this] nf False show ?thesis
        by simp
    qed
  qed
qed

lemma cobsEncode_blocks: "cobsEncode bs = cobs_blocks [] bs"
proof -
  obtain r ci c where f: "fold cobsEncode_step bs ([0], 0, 1) = (r, ci, c)"
    by (cases "fold cobsEncode_step bs ([0], 0, 1)") auto
  then have "fold cobsEncode_step bs ([] @ 0 # map unat ([]::byte list), length ([]::nat list),
      length ([]::byte list) + 1) = (r, ci, c)"
    by simp
  from cobsEncode_fold[OF this] f show ?thesis
    by (simp add: cobsEncode_def)
qed


lemma cobs_blocks_not_Nil: "cobs_blocks cur xs \<noteq> []"
  by (induction cur xs rule: cobs_blocks.induct) simp_all

lemma cobsDecode_block:
  assumes "unat code = Suc n" and "length blk = n"
  shows "cobsDecode_loop (code # blk @ rest) res
           = cobsDecode_loop rest (if code < 0xFF \<and> rest \<noteq> [] then res @ blk @ [0] else res @ blk)"
proof -
  have "code \<noteq> 0" using assms(1) by auto
  then show ?thesis using assms by simp
qed

lemma code_byte:
  assumes "n < 255"
  shows "unat (word_of_nat (Suc n) :: byte) = Suc n"
proof -
  have "unat (word_of_nat (Suc n) :: byte) = Suc n mod 2 ^ LENGTH(8)"
    by (rule unat_of_nat)
  also have "\<dots> = Suc n" using assms by simp
  finally show ?thesis .
qed

lemma code_byte_less:
  assumes "n < 254"
  shows "(word_of_nat (Suc n) :: byte) < 0xFF"
proof -
  have "unat (word_of_nat (Suc n) :: byte) = Suc n"
    using assms by (intro code_byte) simp
  moreover have "unat (0xFF :: byte) = 255" by simp
  ultimately show ?thesis using assms by (simp only: word_less_nat_alt)
qed

lemma cobsDecode_blocks:
  "\<forall>x\<in>set cur. x \<noteq> 0 \<Longrightarrow> length cur < 254
     \<Longrightarrow> cobsDecode_loop (cobs_blocks cur xs) res = Some (res @ cur @ xs)"
proof (induction xs arbitrary: cur res)
  case Nil
  have u: "unat (word_of_nat (Suc (length cur)) :: byte) = Suc (length cur)"
    using Nil.prems(2) by (intro code_byte) simp
  from cobsDecode_block[OF u refl, of "[]" res] show ?case by simp
next
  case (Cons x xs)
  have u: "unat (word_of_nat (Suc (length cur)) :: byte) = Suc (length cur)"
    using Cons.prems(2) by (intro code_byte) simp
  have l: "(word_of_nat (Suc (length cur)) :: byte) < 0xFF"
    using Cons.prems(2) by (rule code_byte_less)
  show ?case
  proof (cases "x = 0")
    case True
    have "cobsDecode_loop (cobs_blocks cur (x # xs)) res
        = cobsDecode_loop (cobs_blocks [] xs) (res @ cur @ [0])"
      using True cobsDecode_block[OF u refl, of "cobs_blocks [] xs" res] l
      by (simp add: cobs_blocks_not_Nil)
    also have "\<dots> = Some ((res @ cur @ [0]) @ [] @ xs)"
      by (rule Cons.IH) simp_all
    finally show ?thesis using True by simp
  next
    case False
    show ?thesis
    proof (cases "length cur + 2 = 0xFF")
      case True
      have u': "unat (0xFF :: byte) = Suc (length (cur @ [x]))" using True by simp
      have "cobsDecode_loop (cobs_blocks cur (x # xs)) res
          = cobsDecode_loop (0xFF # (cur @ [x]) @ cobs_blocks [] xs) res"
        using True False by simp
      also have "\<dots> = cobsDecode_loop (cobs_blocks [] xs) (res @ cur @ [x])"
        using cobsDecode_block[OF u' refl, of "cobs_blocks [] xs" res] by simp
      also have "\<dots> = Some ((res @ cur @ [x]) @ [] @ xs)"
        by (rule Cons.IH) simp_all
      finally show ?thesis by simp
    next
      case nf: False
      have "cobsDecode_loop (cobs_blocks cur (x # xs)) res
          = cobsDecode_loop (cobs_blocks (cur @ [x]) xs) res"
        using nf False by simp
      also have "\<dots> = Some (res @ (cur @ [x]) @ xs)"
      proof (rule Cons.IH)
        show "\<forall>y\<in>set (cur @ [x]). y \<noteq> 0" using Cons.prems(1) False by simp
        show "length (cur @ [x]) < 254" using Cons.prems(2) nf by simp
      qed
      finally show ?thesis by simp
    qed
  qed
qed

lemma cobs_blocks_nonzero:
  "\<forall>x\<in>set cur. x \<noteq> 0 \<Longrightarrow> length cur < 254 \<Longrightarrow> 0 \<notin> set (cobs_blocks cur xs)"
proof (induction xs arbitrary: cur)
  case Nil
  have "unat (word_of_nat (Suc (length cur)) :: byte) = Suc (length cur)"
    using Nil.prems(2) by (intro code_byte) simp
  then have "(word_of_nat (Suc (length cur)) :: byte) \<noteq> 0" by auto
  with Nil.prems(1) show ?case by auto
next
  case (Cons x xs)
  have "unat (word_of_nat (Suc (length cur)) :: byte) = Suc (length cur)"
    using Cons.prems(2) by (intro code_byte) simp
  then have c: "(word_of_nat (Suc (length cur)) :: byte) \<noteq> 0" by auto
  have e: "0 \<notin> set (cobs_blocks [] xs)" by (rule Cons.IH) simp_all
  show ?case
  proof (cases "x = 0")
    case True
    with c e Cons.prems(1) show ?thesis by auto
  next
    case False
    show ?thesis
    proof (cases "length cur + 2 = 0xFF")
      case True
      with False e Cons.prems(1) show ?thesis by auto
    next
      case nf: False
      have "0 \<notin> set (cobs_blocks (cur @ [x]) xs)"
      proof (rule Cons.IH)
        show "\<forall>y\<in>set (cur @ [x]). y \<noteq> 0" using Cons.prems(1) False by simp
        show "length (cur @ [x]) < 254" using Cons.prems(2) nf by simp
      qed
      with nf False show ?thesis by simp
    qed
  qed
qed

text \<open>
  Claim C5 (COBS round trip). For every byte sequence, zeros and runs of more than 254
  non-zero bytes included, \<open>cobsDecode\<close> of \<open>cobsEncode\<close> returns the sequence, and the
  encoded form contains no zero byte.
\<close>

theorem cobs_round_trip:
  "cobsDecode (cobsEncode b) = Some b \<and> 0 \<notin> set (cobsEncode b)"
  using cobsDecode_blocks[of "[]" b "[]"] cobs_blocks_nonzero[of "[]" b]
  by (simp add: cobsDecode_def cobsEncode_blocks)

theorem cobs_round_trip_witness:
  "cobsDecode (cobsEncode [0, 0, 1]) = Some [0, 0, 1]
   \<and> cobsEncode [0, 0, 1] = [1, 1, 2, 1]
   \<and> 0 \<notin> set (cobsEncode [0, 0, 1])"
  using cobs_round_trip[of "[0, 0, 1]"]
  by (simp add: cobsEncode_def cobsEncode_step_def)

section \<open>Properties of the SLIP codec\<close>

lemma slipEncode_step_append: "slipEncode_step x acc = acc @ slipEncode_step x []"
  by (simp add: slipEncode_step_def)

lemma slipEncode_fold_append:
  "fold slipEncode_step xs acc = acc @ fold slipEncode_step xs []"
proof (induction xs arbitrary: acc)
  case Nil
  show ?case by simp
next
  case (Cons x xs)
  have "fold slipEncode_step (x # xs) acc = fold slipEncode_step xs (slipEncode_step x acc)"
    by simp
  also have "\<dots> = slipEncode_step x acc @ fold slipEncode_step xs []"
    by (rule Cons.IH)
  also have "\<dots> = acc @ slipEncode_step x [] @ fold slipEncode_step xs []"
    by (subst slipEncode_step_append) simp
  also have "slipEncode_step x [] @ fold slipEncode_step xs [] = fold slipEncode_step (x # xs) []"
    using Cons.IH[of "slipEncode_step x []"] by simp
  finally show ?case .
qed

lemma slipEncode_step_Nil:
  "slipEncode_step x [] =
     (if x = SLIP_END then [SLIP_ESC, SLIP_ESC_END]
      else if x = SLIP_ESC then [SLIP_ESC, SLIP_ESC_ESC] else [x])"
  by (simp add: slipEncode_step_def)

lemma slipEncode_fold_Cons:
  "fold slipEncode_step (x # xs) [] = slipEncode_step x [] @ fold slipEncode_step xs []"
  using slipEncode_fold_append[of xs "slipEncode_step x []"] by simp

lemma slipDecode_encoded:
  "slipDecode_loop (fold slipEncode_step xs [] @ rest) res False
     = slipDecode_loop rest (res @ xs) False"
proof (induction xs arbitrary: res)
  case Nil
  show ?case by simp
next
  case (Cons x xs)
  show ?case
    unfolding slipEncode_fold_Cons
    using Cons.IH[of "res @ [x]"]
    by (auto simp add: slipEncode_step_Nil)
qed

lemma slipEncode_no_END: "SLIP_END \<notin> set (fold slipEncode_step xs [])"
proof (induction xs)
  case Nil
  show ?case by simp
next
  case (Cons x xs)
  then show ?case
    unfolding slipEncode_fold_Cons by (simp add: slipEncode_step_Nil)
qed

text \<open>
  Claim C6 (SLIP round trip). For every byte sequence, \<open>slipDecode\<close> of \<open>slipEncode\<close> returns
  the sequence; the encoded form ends with END (0xC0) and has no END before that last
  byte.
\<close>

theorem slip_round_trip:
  "slipDecode (slipEncode b) = Some b
   \<and> last (slipEncode b) = SLIP_END
   \<and> SLIP_END \<notin> set (butlast (slipEncode b))"
  using slipDecode_encoded[of b "[SLIP_END]" "[]"] slipEncode_no_END[of b]
  by (simp add: slipDecode_def slipEncode_def)

theorem slip_round_trip_witness:
  "slipDecode (slipEncode [1, 0xC0, 0xDB, 2]) = Some [1, 0xC0, 0xDB, 2]
   \<and> slipEncode [1, 0xC0, 0xDB, 2] = [1, 0xDB, 0xDC, 0xDB, 0xDD, 2, 0xC0]
   \<and> SLIP_END \<notin> set (butlast (slipEncode [1, 0xC0, 0xDB, 2]))"
  using slip_round_trip[of "[1, 0xC0, 0xDB, 2]"]
  by (simp add: slipEncode_def slipEncode_step_def)

section \<open>Properties of the CAN adapter\<close>

lemma uint_be32_concat:
  "uint (be32 b0 b1 b2 b3)
     = concat_bit 8 (uint b3) (concat_bit 8 (uint b2) (concat_bit 8 (uint b1) (uint b0)))"
  unfolding be32_def
  by (rule bit_eqI) (auto simp: bit_simps dest: bit_imp_le_length)

lemma uint_byte_take: "take_bit 8 (uint (b::byte)) = uint b"
  by (rule bit_eqI) (auto simp: bit_simps dest: bit_imp_le_length)

lemma uint_be32:
  "uint (be32 b0 b1 b2 b3)
     = 16777216 * uint b0 + 65536 * uint b1 + 256 * uint b2 + uint b3"
  unfolding uint_be32_concat concat_bit_eq uint_byte_take
  by (simp add: push_bit_eq_mult)

lemma uint_byte_lt: "uint (b::byte) < 256"
  using uint_bounded[of b] by simp

lemma sint_be32:
  assumes "b0 < 0x80"
  shows "sint (be32 b0 b1 b2 b3)
     = 16777216 * uint b0 + 65536 * uint b1 + 256 * uint b2 + uint b3"
proof -
  have "uint b0 < 128" using assms by (simp add: word_less_def)
  then have "uint (be32 b0 b1 b2 b3) < 2 ^ 31"
    using uint_byte_lt[of b1] uint_byte_lt[of b2] uint_byte_lt[of b3]
    unfolding uint_be32 by simp
  moreover have "0 \<le> uint (be32 b0 b1 b2 b3)" by simp
  ultimately have "signed_take_bit 31 (uint (be32 b0 b1 b2 b3)) = uint (be32 b0 b1 b2 b3)"
    by (intro signed_take_bit_int_eq_self) linarith+
  then have "sint (be32 b0 b1 b2 b3) = uint (be32 b0 b1 b2 b3)"
    by (simp add: sint_uint)
  then show ?thesis by (simp only: uint_be32)
qed

lemma rx_frame_Inr: "\<exists>fr. rx_frame msg = Inr fr"
  by (simp add: rx_frame_def Let_def set_bytes_def)

lemma onMessage_delivers:
  "snd (onMessage h now msg) \<noteq> None
     \<longleftrightarrow> filters h = [] \<or> list_ex (filter_matches msg) (filters h)"
proof -
  obtain fr where "rx_frame msg = Inr fr" using rx_frame_Inr by blast
  then show ?thesis
    by (auto simp: onMessage_def Let_def)
qed

text \<open>
  Claim C8 (CAN filter semantics), as amended. A received message reaches the read
  callbacks exactly when the handle has no filter at all, or some filter \<open>f\<close> of the handle
  satisfies \<open>(msg.id & f.mask) == (f.id & f.mask)\<close> and \<open>f.extended\<close> is unset or equal to
  \<open>msg.ext\<close>. The claim lets nothing through an empty filter set; the listener only
  filters when \<open>this.filters.length > 0\<close>.
\<close>

theorem can_filter_semantics:
  "snd (onMessage h now msg) \<noteq> None \<longleftrightarrow>
     filters h = []
     \<or> (\<exists>f\<in>set (filters h).
           sint (ToInt32 (can_id msg) AND ToInt32 (filter_mask f))
             = sint (ToInt32 (filter_id f) AND ToInt32 (filter_mask f))
           \<and> (extended f = None \<or> extended f = Some (ext msg)))"
  unfolding onMessage_delivers list_ex_iff filter_matches_def Let_def ..

theorem can_filter_semantics_witness:
  "snd (onMessage (idle_handle\<lparr>filters := [\<lparr>filter_id = 0x7E0, filter_mask = 0x7F0,
                                               extended = Some False\<rparr>]\<rparr>) 0
          \<lparr>can_id = 0x7E8, ext = False, rtr = False, can_data = [1, 2]\<rparr>) \<noteq> None
   \<and> snd (onMessage (idle_handle\<lparr>filters := [\<lparr>filter_id = 0x7E0, filter_mask = 0x7F0,
                                               extended = Some False\<rparr>]\<rparr>) 0
          \<lparr>can_id = 0x100, ext = False, rtr = False, can_data = [1, 2]\<rparr>) = None"
proof -
  let ?h = "idle_handle\<lparr>filters := [\<lparr>filter_id = 0x7E0, filter_mask = 0x7F0,
                                           extended = Some False\<rparr>]\<rparr>"
  let ?m1 = "\<lparr>can_id = 0x7E8, ext = False, rtr = False, can_data = [1, 2]\<rparr>"
  let ?m2 = "\<lparr>can_id = 0x100, ext = False, rtr = False, can_data = [1, 2]\<rparr>"
  have "snd (onMessage ?h 0 ?m1) \<noteq> None"
    unfolding can_filter_semantics[of ?h 0 ?m1] by (simp add: ToInt32_def idle_handle_def)
  moreover have "\<not> snd (onMessage ?h 0 ?m2) \<noteq> None"
    unfolding can_filter_semantics[of ?h 0 ?m2] by (simp add: ToInt32_def idle_handle_def)
  ultimately show ?thesis by blast
qed

text \<open>With no filter configured the message is delivered, although no filter exists that
  could match it.\<close>

theorem can_filter_semantics_counterexample:
  "snd (onMessage idle_handle 0 \<lparr>can_id = 0x123, ext = False, rtr = False, can_data = []\<rparr>)
      \<noteq> None
   \<and> set (filters idle_handle) = {}"
  using onMessage_delivers[of idle_handle 0]
  by (simp add: idle_handle_def)

lemma write_result:
  "snd (CANHandle_write send h frame) =
     (if length frame < 5 then Inl ''Invalid CAN frame: too short''
      else case send (write_msg frame) of None \<Rightarrow> Inr () | Some e \<Rightarrow> Inl e)"
  by (simp add: CANHandle_write_def split: option.split)

text \<open>What \<open>write\<close> puts into the message, for every frame: \<open>ext\<close> is the test
  \<open>id > 0x7FF\<close> on the id it computed, \<open>rtr\<close> is false, and the data are the bytes from
  offset 5 on, at most as many as the dlc byte says. The id is the big-endian 32-bit value
  of the first four bytes when the first byte is below 0x80.\<close>

lemma write_msg_fields:
  "ext (write_msg frame) = (0x7FF < can_id (write_msg frame))
   \<and> rtr (write_msg frame) = False
   \<and> can_data (write_msg frame) = take (unat (frame ! 4)) (drop 5 frame)"
  by (simp add: write_msg_def Let_def slice_def)

lemma write_msg_id:
  assumes "frame ! 0 < 0x80"
  shows "can_id (write_msg frame)
     = 16777216 * uint (frame ! 0) + 65536 * uint (frame ! 1)
        + 256 * uint (frame ! 2) + uint (frame ! 3)"
  using sint_be32[OF assms] by (simp add: write_msg_def Let_def)

text \<open>
  Claim C9 (CAN write). The claim has \<open>write\<close> fail on a frame of fewer than 5 bytes and
  on a dlc byte above 8, and otherwise read the id as an unsigned big-endian 32-bit value
  with \<open>ext = id > 0x7FF\<close>. The source does the first and misses the other two. A frame
  of four bytes is refused. A frame of fourteen bytes whose dlc byte is 9 is not: \<open>write\<close>
  hands the channel a message with nine data bytes and succeeds when the channel takes
  it, although \<open>CANDecoder.validate\<close> reports INVALID_DLC on that same frame and the
  listener documents the layout as \<open>[DATA(0-8)]\<close>. And a first byte of 0x80 gives the id
  -2147483648 instead of 2147483648, so \<open>ext\<close> is false.
\<close>

theorem can_write_dlc_unchecked:
  "snd (CANHandle_write accepting_channel idle_handle [0, 0, 7, 0xE0])
      = Inl ''Invalid CAN frame: too short''
   \<and> snd (CANHandle_write accepting_channel idle_handle
          [0, 0, 1, 0x23, 9, 1, 2, 3, 4, 5, 6, 7, 8, 9]) = Inr ()
   \<and> 8 < unat ([0, 0, 1, 0x23, 9, 1, 2, 3, 4, 5, 6, 7, 8, 9 :: byte] ! 4)
   \<and> write_msg [0, 0, 1, 0x23, 9, 1, 2, 3, 4, 5, 6, 7, 8, 9]
        = \<lparr>can_id = 0x123, ext = False, rtr = False,
           can_data = [1, 2, 3, 4, 5, 6, 7, 8, 9]\<rparr>
   \<and> can_id (write_msg [0x80, 0, 0, 0, 0]) = - 2147483648
   \<and> ext (write_msg [0x80, 0, 0, 0, 0]) = False"
  by (simp add: write_result accepting_channel_def write_msg_def Let_def slice_def be32_def)

end
